theory Spec2Isabelle
  imports Complex_Main "HOL-Library.Word"
begin

section \<open>Data model of Cards.py\<close>

text \<open>
  Images are numpy arrays of dtype uint8: a grayscale image is a list of rows of 8-bit
  pixels, a camera frame a list of rows of (blue, green, red) triples. Contour points
  are the integer pixel coordinates that OpenCV returns (the conversion to float32
  in \<^verbatim>\<open>np.float32(approx)\<close> is exact for coordinates below \<open>2 ^ 24\<close>, so sums
  and differences of coordinates are modelled on \<^typ>\<open>int\<close>).
\<close>

type_synonym pixel = "8 word"
type_synonym image = "pixel list list"
type_synonym bgr = "pixel \<times> pixel \<times> pixel"
type_synonym frame = "bgr list list"
type_synonym point = "int \<times> int"
type_synonym contour = "point list"

text \<open>One row of the hierarchy array of \<^verbatim>\<open>cv2.findContours\<close>:
  (next, previous, first child, parent); the source reads component 3, the parent.\<close>

type_synonym hier_entry = "int \<times> int \<times> int \<times> int"

definition parent :: "hier_entry \<Rightarrow> int" where
  "parent e = (case e of (nxt, prv, child, par) \<Rightarrow> par)"

text \<open>The exceptions the modelled code can raise.\<close>

datatype error = IndexError | ValueError | UnboundLocalError | Cv2Error

subsection \<open>Constants\<close>

definition BKG_THRESH :: int where "BKG_THRESH = 60"
definition CARD_THRESH :: int where "CARD_THRESH = 30"
definition CORNER_WIDTH :: int where "CORNER_WIDTH = 32"
definition CORNER_HEIGHT :: int where "CORNER_HEIGHT = 84"
definition SUIT_WIDTH :: nat where "SUIT_WIDTH = 70"
definition SUIT_HEIGHT :: nat where "SUIT_HEIGHT = 100"
definition SUIT_DIFF_MAX :: int where "SUIT_DIFF_MAX = 700"
definition CARD_MAX_AREA :: real where "CARD_MAX_AREA = 120000"
definition CARD_MIN_AREA :: real where "CARD_MIN_AREA = 25000"

subsection \<open>Structures\<close>

record Query_card =
  contour :: contour
  width :: int
  height :: int
  corner_pts :: "point list"
  center :: "int list"
  warp :: image
  suit_img :: image
  best_suit_match :: string
  suit_diff :: int

text \<open>\<^verbatim>\<open>Query_card.__init__\<close>.\<close>

definition Query_card_init :: Query_card where
  "Query_card_init =
     \<lparr>contour = [], width = 0, height = 0, corner_pts = [], center = [], warp = [],
      suit_img = [], best_suit_match = ''Unknown'', suit_diff = 0\<rparr>"

text \<open>A train suit. \<^verbatim>\<open>cv2.imread\<close> returns \<^verbatim>\<open>None\<close> for a file it cannot
  read, so the image of a loaded template is optional; the constructor's placeholder
  \<^verbatim>\<open>[]\<close> is the empty image.\<close>

record Train_suits =
  img :: "image option"
  name :: string

definition Train_suits_init :: Train_suits where
  "Train_suits_init = \<lparr>img = Some [], name = ''Placeholder''\<rparr>"

subsection \<open>The OpenCV functions the code calls\<close>

text \<open>
  OpenCV is not part of the repository: the functions of \<^verbatim>\<open>cv2\<close> whose results
  the code only passes on are parameters of the model, collected in one record.
  \<^verbatim>\<open>cvtColor\<close> stands for the conversion \<^verbatim>\<open>COLOR_BGR2GRAY\<close>, \<^verbatim>\<open>GaussianBlur\<close> for
  the 5x5 blur, \<^verbatim>\<open>imread\<close> for reading with \<^verbatim>\<open>IMREAD_GRAYSCALE\<close>,
  \<^verbatim>\<open>findContours\<close> for the call with \<^verbatim>\<open>RETR_TREE\<close> and \<^verbatim>\<open>CHAIN_APPROX_SIMPLE\<close>
  (contours and hierarchy rows), \<^verbatim>\<open>arcLength\<close> and \<^verbatim>\<open>approxPolyDP\<close> for the
  calls on closed curves. \<^verbatim>\<open>resize\<close> takes the source, \<^verbatim>\<open>dsize\<close> as
  (width, height), and the factors \<^verbatim>\<open>fx\<close>, \<^verbatim>\<open>fy\<close>. Areas, perimeters and
  the tolerance \<^verbatim>\<open>0.01*peri\<close> are floating point numbers in the source and reals
  here.
\<close>

record cv2 =
  imread :: "string \<Rightarrow> image option"
  cvtColor :: "frame \<Rightarrow> image"
  GaussianBlur :: "image \<Rightarrow> image"
  findContours :: "image \<Rightarrow> contour list \<times> hier_entry list"
  contourArea :: "contour \<Rightarrow> real"
  arcLength :: "contour \<Rightarrow> real"
  approxPolyDP :: "contour \<Rightarrow> real \<Rightarrow> contour"
  boundingRect :: "contour \<Rightarrow> int \<times> int \<times> int \<times> int"
  getPerspectiveTransform :: "point list \<Rightarrow> point list \<Rightarrow> real list list"
  warpPerspective :: "frame \<Rightarrow> real list list \<Rightarrow> nat \<times> nat \<Rightarrow> frame"
  resize :: "image \<Rightarrow> nat \<times> nat \<Rightarrow> nat \<Rightarrow> nat \<Rightarrow> image"

subsection \<open>numpy indexing, slicing and reductions\<close>

text \<open>\<^verbatim>\<open>a[r][c]\<close> and \<^verbatim>\<open>a[r, c]\<close> with non-negative indices: IndexError outside
  the array.\<close>

definition getpix :: "'a list list \<Rightarrow> nat \<Rightarrow> nat \<Rightarrow> error + 'a" where
  "getpix a r c =
     (if r < length a \<and> c < length (a ! r) then Inr (a ! r ! c) else Inl IndexError)"

text \<open>\<^verbatim>\<open>np.shape(a)[:2]\<close>: (rows, columns).\<close>

definition shape2 :: "'a list list \<Rightarrow> nat \<times> nat" where
  "shape2 a = (length a, (if a = [] then 0 else length (hd a)))"

text \<open>A slice \<^verbatim>\<open>xs[lo:hi]\<close>: a negative bound counts from the end, and bounds
  are clipped to the list, so a slice never fails.\<close>

definition slice_bound :: "nat \<Rightarrow> int \<Rightarrow> nat" where
  "slice_bound n i = (if i < 0 then nat (max 0 (i + int n)) else min (nat i) n)"

definition py_slice :: "int \<Rightarrow> int \<Rightarrow> 'a list \<Rightarrow> 'a list" where
  "py_slice lo hi xs =
     (let a = slice_bound (length xs) lo; b = slice_bound (length xs) hi
      in take (b - a) (drop a xs))"

text \<open>\<^verbatim>\<open>a[r0:r1, c0:c1]\<close>.\<close>

definition slice2 :: "'a list list \<Rightarrow> int \<Rightarrow> int \<Rightarrow> int \<Rightarrow> int \<Rightarrow> 'a list list" where
  "slice2 a r0 r1 c0 c1 = map (py_slice c0 c1) (py_slice r0 r1 a)"

text \<open>\<^verbatim>\<open>np.sum\<close> of a uint8 array accumulates in a 64-bit integer, which no image
  of the program can overflow: the sum is modelled on \<^typ>\<open>int\<close>.\<close>

definition np_sum :: "image \<Rightarrow> int" where
  "np_sum a = sum_list (map (\<lambda>row. sum_list (map uint row)) a)"

text \<open>\<^verbatim>\<open>np.argmin\<close> and \<^verbatim>\<open>np.argmax\<close> of a flattened array: the first index of the
  extremum; ValueError on an empty array.\<close>

fun argmin_from :: "int list \<Rightarrow> nat \<Rightarrow> nat \<Rightarrow> int \<Rightarrow> nat" where
  "argmin_from [] i best bv = best"
| "argmin_from (x # xs) i best bv =
     (if x < bv then argmin_from xs (Suc i) i x else argmin_from xs (Suc i) best bv)"

fun argmax_from :: "int list \<Rightarrow> nat \<Rightarrow> nat \<Rightarrow> int \<Rightarrow> nat" where
  "argmax_from [] i best bv = best"
| "argmax_from (x # xs) i best bv =
     (if bv < x then argmax_from xs (Suc i) i x else argmax_from xs (Suc i) best bv)"

definition np_argmin :: "int list \<Rightarrow> error + nat" where
  "np_argmin xs = (case xs of [] \<Rightarrow> Inl ValueError | x # rest \<Rightarrow> Inr (argmin_from rest 1 0 x))"

definition np_argmax :: "int list \<Rightarrow> error + nat" where
  "np_argmax xs = (case xs of [] \<Rightarrow> Inl ValueError | x # rest \<Rightarrow> Inr (argmax_from rest 1 0 x))"

subsection \<open>cv2.threshold and cv2.absdiff on uint8 images\<close>

datatype thresh_type = THRESH_BINARY | THRESH_BINARY_INV

text \<open>\<^verbatim>\<open>cv2.threshold(src, thresh, maxval, type)\<close>, the image it returns: a pixel
  above the cutoff becomes \<^verbatim>\<open>maxval\<close> (\<^verbatim>\<open>THRESH_BINARY\<close>) or 0
  (\<^verbatim>\<open>THRESH_BINARY_INV\<close>), any other pixel 0 or \<^verbatim>\<open>maxval\<close>.\<close>

definition threshold :: "image \<Rightarrow> int \<Rightarrow> pixel \<Rightarrow> thresh_type \<Rightarrow> image" where
  "threshold src thresh maxval ty =
     map (map (\<lambda>p. case ty of
                      THRESH_BINARY \<Rightarrow> if thresh < uint p then maxval else 0
                    | THRESH_BINARY_INV \<Rightarrow> if thresh < uint p then 0 else maxval)) src"

text \<open>\<^verbatim>\<open>cv2.absdiff\<close>: the per-pixel absolute difference of two arrays of the same
  shape; an OpenCV error when the shapes differ or the second array is
  \<^verbatim>\<open>None\<close>.\<close>

definition absd :: "pixel \<Rightarrow> pixel \<Rightarrow> pixel" where
  "absd a b = (if a \<le> b then b - a else a - b)"

definition absdiff :: "image \<Rightarrow> image option \<Rightarrow> error + image" where
  "absdiff a b =
     (case b of
        None \<Rightarrow> Inl Cv2Error
      | Some b' \<Rightarrow>
          if map length a = map length b' then Inr (map2 (map2 absd) a b')
          else Inl Cv2Error)"

text \<open>\<^verbatim>\<open>cv2.resize\<close> raises on an empty source.\<close>

definition cv2_resize :: "cv2 \<Rightarrow> image \<Rightarrow> nat \<times> nat \<Rightarrow> nat \<Rightarrow> nat \<Rightarrow> error + image" where
  "cv2_resize cv src dsize fx fy =
     (if src = [] \<or> hd src = [] then Inl Cv2Error else Inr (resize cv src dsize fx fy))"

section \<open>The functions of Cards.py\<close>

subsection \<open>load_suits\<close>

text \<open>The loop of \<^verbatim>\<open>load_suits\<close>: append a fresh \<^verbatim>\<open>Train_suits\<close>, set the name
  and the image of entry \<open>i\<close>, count \<open>i\<close> up. Nothing in it raises:
  \<^verbatim>\<open>cv2.imread\<close> answers a missing file with \<^verbatim>\<open>None\<close>.\<close>

fun load_suits_loop ::
  "cv2 \<Rightarrow> string \<Rightarrow> string list \<Rightarrow> Train_suits list \<Rightarrow> nat \<Rightarrow> Train_suits list" where
  "load_suits_loop cv filepath [] train_suits i = train_suits"
| "load_suits_loop cv filepath (Suit # rest) train_suits i =
     (let ts1 = train_suits @ [Train_suits_init];
          ts2 = ts1[i := (ts1 ! i)\<lparr>name := Suit\<rparr>];
          filename = Suit @ ''.jpg'';
          ts3 = ts2[i := (ts2 ! i)\<lparr>img := imread cv (filepath @ filename)\<rparr>]
      in load_suits_loop cv filepath rest ts3 (i + 1))"

definition load_suits :: "cv2 \<Rightarrow> string \<Rightarrow> Train_suits list" where
  "load_suits cv filepath =
     load_suits_loop cv filepath [''Spades'', ''Diamonds'', ''Clubs'', ''Hearts''] [] 0"

subsection \<open>preprocess_image\<close>

text \<open>
  \<^verbatim>\<open>img_w, img_h = np.shape(image)[:2]\<close> binds \<^verbatim>\<open>img_w\<close> to the number of rows
  and \<^verbatim>\<open>img_h\<close> to the number of columns. The sampled pixel is read from
  \<^verbatim>\<open>gray\<close>. It is a numpy uint8 scalar; adding the Python integer 60 to it gives a
  64-bit integer under the scalar promotion of NumPy 1.x, the NumPy that the OpenCV 3
  interface used by the code (three results of \<^verbatim>\<open>findContours\<close>) runs with, so the
  cutoff does not wrap around at 256.
\<close>

definition preprocess_image :: "cv2 \<Rightarrow> frame \<Rightarrow> error + image" where
  "preprocess_image cv image' =
     (let gray = cvtColor cv image';
          blur = GaussianBlur cv gray;
          (img_w, img_h) = shape2 image'
      in case getpix gray (img_h div 100) (img_w div 2) of
           Inl e \<Rightarrow> Inl e
         | Inr bkg_level \<Rightarrow>
             (let thresh_level = uint bkg_level + BKG_THRESH
              in Inr (threshold blur thresh_level 255 THRESH_BINARY)))"

subsection \<open>find_cards\<close>

text \<open>The first loop: \<^verbatim>\<open>cnts_sort.append(cnts[i])\<close>,
  \<^verbatim>\<open>hier_sort.append(hier[0][i])\<close> for the indices in sorted order.\<close>

fun fill_sorted ::
  "contour list \<Rightarrow> hier_entry list \<Rightarrow> nat list \<Rightarrow> contour list \<times> hier_entry list
     \<Rightarrow> error + (contour list \<times> hier_entry list)" where
  "fill_sorted cnts hier [] acc = Inr acc"
| "fill_sorted cnts hier (i # rest) (cnts_sort, hier_sort) =
     (if i < length cnts \<and> i < length hier
      then fill_sorted cnts hier rest (cnts_sort @ [cnts ! i], hier_sort @ [hier ! i])
      else Inl IndexError)"

text \<open>The second loop, over \<^verbatim>\<open>range(len(cnts_sort))\<close>, which sets
  \<^verbatim>\<open>cnt_is_card[i] = 1\<close> for the contours that meet the four criteria.\<close>

fun mark_cards ::
  "cv2 \<Rightarrow> contour list \<Rightarrow> hier_entry list \<Rightarrow> nat list \<Rightarrow> int list \<Rightarrow> int list" where
  "mark_cards cv cnts_sort hier_sort [] cnt_is_card = cnt_is_card"
| "mark_cards cv cnts_sort hier_sort (i # rest) cnt_is_card =
     (let sz = contourArea cv (cnts_sort ! i);
          peri = arcLength cv (cnts_sort ! i);
          approx = approxPolyDP cv (cnts_sort ! i) (0.01 * peri)
      in mark_cards cv cnts_sort hier_sort rest
           (if sz < CARD_MAX_AREA \<and> sz > CARD_MIN_AREA
               \<and> parent (hier_sort ! i) = - 1 \<and> length approx = 4
            then cnt_is_card[i := 1] else cnt_is_card))"

text \<open>\<^verbatim>\<open>sorted(..., key=..., reverse=True)\<close> is stable: among equal keys the
  original order is kept, which is the stable ascending sort by the negated key.\<close>

definition find_cards :: "cv2 \<Rightarrow> image \<Rightarrow> error + (contour list \<times> int list)" where
  "find_cards cv thresh_image =
     (let (cnts, hier) = findContours cv thresh_image;
          index_sort = sort_key (\<lambda>i. - contourArea cv (cnts ! i)) [0..<length cnts]
      in if length cnts = 0 then Inr ([], [])
         else
           (let cnt_is_card = replicate (length cnts) 0
            in case fill_sorted cnts hier index_sort ([], []) of
                 Inl e \<Rightarrow> Inl e
               | Inr (cnts_sort, hier_sort) \<Rightarrow>
                   Inr (cnts_sort,
                        mark_cards cv cnts_sort hier_sort [0..<length cnts_sort] cnt_is_card)))"

subsection \<open>flattener\<close>

text \<open>
  The array \<^verbatim>\<open>temp_rect\<close> that \<^verbatim>\<open>flattener\<close> builds from the corner points and the
  bounding box: \<^verbatim>\<open>np.sum(pts, axis = 2)\<close> is \<open>x + y\<close> per point and
  \<^verbatim>\<open>np.diff(pts, axis = -1)\<close> is \<open>y - x\<close> per point. The three tests on the aspect
  ratio are separate \<^verbatim>\<open>if\<close> statements, run in this order. The diamond branch
  indexes \<^verbatim>\<open>pts[0]\<close> to \<^verbatim>\<open>pts[3]\<close>. The width and the height are the integers
  of \<^verbatim>\<open>cv2.boundingRect\<close>; for integers the floating point comparisons with
  \<^verbatim>\<open>0.8*h\<close> and \<^verbatim>\<open>1.2*h\<close> decide as the comparisons of real numbers do (the
  product is exact whenever it is an integer), so they are written on the reals.
\<close>

definition temp_rect :: "point list \<Rightarrow> int \<Rightarrow> int \<Rightarrow> error + point list" where
  "temp_rect pts w h =
     (let s = map (\<lambda>(x, y). x + y) pts;
          diff = map (\<lambda>(x, y). y - x) pts
      in case (np_argmin s, np_argmax s, np_argmin diff, np_argmax diff) of
           (Inr i_tl, Inr i_br, Inr i_tr, Inr i_bl) \<Rightarrow>
             (let tl = pts ! i_tl; br = pts ! i_br; tr = pts ! i_tr; bl = pts ! i_bl;
                  r0 = replicate 4 (0, 0);
                  r1 = (if real_of_int w \<le> 0.8 * real_of_int h then [tl, tr, br, bl] else r0);
                  r2 = (if real_of_int w \<ge> 1.2 * real_of_int h then [bl, tl, tr, br] else r1)
              in if real_of_int w > 0.8 * real_of_int h \<and> real_of_int w < 1.2 * real_of_int h
                 then
                   (if length pts < 4 then Inl IndexError
                    else
                      (let r3 = (if snd (pts ! 1) \<le> snd (pts ! 3)
                                 then [pts ! 1, pts ! 0, pts ! 3, pts ! 2] else r2);
                           r4 = (if snd (pts ! 1) > snd (pts ! 3)
                                 then [pts ! 0, pts ! 3, pts ! 2, pts ! 1] else r3)
                       in Inr r4))
                 else Inr r2)
         | _ \<Rightarrow> Inl ValueError)"

definition flattener :: "cv2 \<Rightarrow> frame \<Rightarrow> point list \<Rightarrow> int \<Rightarrow> int \<Rightarrow> error + image" where
  "flattener cv image' pts w h =
     (case temp_rect pts w h of
        Inl e \<Rightarrow> Inl e
      | Inr rect \<Rightarrow>
          (let maxWidth = 200; maxHeight = 300;
               dst = [(0, 0), (int maxWidth - 1, 0), (int maxWidth - 1, int maxHeight - 1),
                      (0, int maxHeight - 1)];
               M = getPerspectiveTransform cv rect dst;
               warped = warpPerspective cv image' M (maxWidth, maxHeight)
           in Inr (cvtColor cv warped)))"

subsection \<open>preprocess_card\<close>

text \<open>
  The cutoff of the second binarization. \<^verbatim>\<open>white_level\<close> is a numpy uint8 scalar
  and \<^verbatim>\<open>CARD_THRESH\<close> a Python integer: under the scalar promotion of NumPy 1.x the
  difference is a 64-bit integer, which can be negative and does not wrap around.
\<close>

definition card_thresh_level :: "pixel \<Rightarrow> int" where
  "card_thresh_level white_level =
     (let thresh_level = uint white_level - CARD_THRESH
      in if thresh_level \<le> 0 then 1 else thresh_level)"

text \<open>The corner of the warped card, zoomed four times and binarized: the image
  \<^verbatim>\<open>query_thresh\<close> of \<^verbatim>\<open>preprocess_card\<close>.\<close>

definition query_thresh :: "cv2 \<Rightarrow> image \<Rightarrow> error + image" where
  "query_thresh cv warped =
     (let Qcorner = slice2 warped 0 CORNER_HEIGHT 0 CORNER_WIDTH
      in case cv2_resize cv Qcorner (0, 0) 4 4 of
           Inl e \<Rightarrow> Inl e
         | Inr Qcorner_zoom \<Rightarrow>
             (case getpix Qcorner_zoom 15 (nat ((CORNER_WIDTH * 4) div 2)) of
                Inl e \<Rightarrow> Inl e
              | Inr white_level \<Rightarrow>
                  Inr (threshold Qcorner_zoom (card_thresh_level white_level) 255
                         THRESH_BINARY_INV)))"

text \<open>\<^verbatim>\<open>int(average[0][0])\<close>: the mean of a coordinate, truncated towards zero.\<close>

definition trunc_mean :: "int list \<Rightarrow> int" where
  "trunc_mean xs =
     (let t = sum_list xs in sgn t * (\<bar>t\<bar> div int (length xs)))"

text \<open>
  \<^verbatim>\<open>preprocess_card\<close>. With no corner point the average cannot be indexed; the
  calls to \<^verbatim>\<open>findContours\<close> leave their argument as it is (OpenCV 3.2 and later).
  When the suit band holds no contour, \<^verbatim>\<open>suit_img\<close> keeps the empty list of the
  constructor.
\<close>

definition preprocess_card :: "cv2 \<Rightarrow> contour \<Rightarrow> frame \<Rightarrow> error + Query_card" where
  "preprocess_card cv contour' image' =
     (let qCard = Query_card_init\<lparr>contour := contour'\<rparr>;
          peri = arcLength cv contour';
          approx = approxPolyDP cv contour' (0.01 * peri);
          pts = approx;
          qCard = qCard\<lparr>corner_pts := pts\<rparr>;
          (x, y, w, h) = boundingRect cv contour';
          qCard = qCard\<lparr>width := w, height := h\<rparr>
      in if pts = [] then Inl IndexError
         else
           (let cent_x = trunc_mean (map fst pts);
                cent_y = trunc_mean (map snd pts);
                qCard = qCard\<lparr>center := [cent_x, cent_y]\<rparr>
            in case flattener cv image' pts w h of
                 Inl e \<Rightarrow> Inl e
               | Inr warped \<Rightarrow>
                   (let qCard = qCard\<lparr>warp := warped\<rparr>
                    in case query_thresh cv (warp qCard) of
                         Inl e \<Rightarrow> Inl e
                       | Inr qt \<Rightarrow>
                           (let Qrank = slice2 qt 20 185 0 128;
                                Qsuit = slice2 qt 186 336 0 128;
                                (found, hier) = findContours cv Qsuit;
                                Qsuit_cnts = sort_key (\<lambda>c. - contourArea cv c) found
                            in if length Qsuit_cnts \<noteq> 0
                               then
                                 (let (x2, y2, w2, h2) = boundingRect cv (Qsuit_cnts ! 0);
                                      Qsuit_roi = slice2 Qsuit y2 (y2 + h2) x2 (x2 + w2)
                                  in case cv2_resize cv Qsuit_roi (SUIT_WIDTH, SUIT_HEIGHT) 0 0 of
                                       Inl e \<Rightarrow> Inl e
                                     | Inr Qsuit_sized \<Rightarrow> Inr (qCard\<lparr>suit_img := Qsuit_sized\<rparr>))
                               else Inr qCard))))"

subsection \<open>match_card\<close>

text \<open>
  The local variables of the loop of \<^verbatim>\<open>match_card\<close>. \<^verbatim>\<open>best_suit_name\<close> and
  \<^verbatim>\<open>best_suit_diff_img\<close> are unbound until the loop assigns them.
\<close>

record match_vars =
  best_suit_match_diff :: int
  best_suit_name :: "string option"
  best_suit_diff_img :: "image option"

text \<open>
  The loop over the train suits. The query card is a mutable object that the function
  holds by reference: the loop carries it along and hands it back, on a normal exit
  and on an exception alike, so that what the call does to the card is part of the
  result. \<^verbatim>\<open>int(np.sum(diff_img)/255)\<close> is the quotient of the non-negative sum,
  rounded down.
\<close>

fun match_loop ::
  "Query_card \<Rightarrow> Train_suits list \<Rightarrow> match_vars \<Rightarrow> Query_card \<times> (error + match_vars)" where
  "match_loop qCard [] v = (qCard, Inr v)"
| "match_loop qCard (Tsuit # rest) v =
     (case absdiff (suit_img qCard) (img Tsuit) of
        Inl e \<Rightarrow> (qCard, Inl e)
      | Inr diff_img \<Rightarrow>
          (let sd = np_sum diff_img div 255
           in if sd < best_suit_match_diff v
              then match_loop qCard rest
                     (v\<lparr>best_suit_diff_img := Some diff_img,
                        best_suit_match_diff := sd,
                        best_suit_name := Some (name Tsuit)\<rparr>)
              else match_loop qCard rest v))"

text \<open>\<^verbatim>\<open>match_card\<close>: the card as the call leaves it, and the pair of label and
  score that the call returns (or the exception it raises).\<close>

definition match_card ::
  "Query_card \<Rightarrow> Train_suits list \<Rightarrow> Query_card \<times> (error + string \<times> int)" where
  "match_card qCard train_suits =
     (let v0 = \<lparr>best_suit_match_diff = 10000, best_suit_name = None,
                best_suit_diff_img = None\<rparr>;
          best_suit_match_name = ''Unknown''
      in case (if length (suit_img qCard) \<noteq> 0 then match_loop qCard train_suits v0
               else (qCard, Inr v0)) of
           (qCard', Inl e) \<Rightarrow> (qCard', Inl e)
         | (qCard', Inr v) \<Rightarrow>
             if best_suit_match_diff v < SUIT_DIFF_MAX
             then (case best_suit_name v of
                     None \<Rightarrow> (qCard', Inl UnboundLocalError)
                   | Some n \<Rightarrow> (qCard', Inr (n, best_suit_match_diff v)))
             else (qCard', Inr (best_suit_match_name, best_suit_match_diff v)))"

section \<open>Notions used in the statements\<close>

subsection \<open>Scores and shapes\<close>

text \<open>The sum of the absolute per-pixel intensity differences of two images, and the
  score of a template against a glyph in the words of the specification: that sum
  divided by 255, rounded down. A template without an image has no score; 0 stands in
  for it and is never used.\<close>

definition pixel_diff_sum :: "image \<Rightarrow> image \<Rightarrow> int" where
  "pixel_diff_sum a b =
     (\<Sum>(ra, rb) \<leftarrow> zip a b. \<Sum>(x, y) \<leftarrow> zip ra rb. \<bar>uint x - uint y\<bar>)"

definition suit_score :: "image \<Rightarrow> Train_suits \<Rightarrow> int" where
  "suit_score g t = (case img t of None \<Rightarrow> 0 | Some b \<Rightarrow> pixel_diff_sum g b div 255)"

text \<open>A template that \<^verbatim>\<open>cv2.absdiff\<close> accepts against the glyph \<open>g\<close>: it has an image,
  with rows of the same lengths.\<close>

definition same_shape :: "image \<Rightarrow> Train_suits \<Rightarrow> bool" where
  "same_shape g t = (case img t of None \<Rightarrow> False | Some b \<Rightarrow> map length g = map length b)"

text \<open>An array of \<open>rows\<close> rows and \<open>cols\<close> columns.\<close>

definition has_shape :: "'a list list \<Rightarrow> nat \<Rightarrow> nat \<Rightarrow> bool" where
  "has_shape a rows cols \<longleftrightarrow> length a = rows \<and> list_all (\<lambda>r. length r = cols) a"

text \<open>The canonical size of a suit glyph, 70 wide and 100 high, and a template that holds
  an image of that size.\<close>

definition canonical_glyph :: "image \<Rightarrow> bool" where
  "canonical_glyph g \<longleftrightarrow> length g = SUIT_HEIGHT \<and> list_all (\<lambda>r. length r = SUIT_WIDTH) g"

definition canonical_template :: "Train_suits \<Rightarrow> bool" where
  "canonical_template t = (case img t of None \<Rightarrow> False | Some b \<Rightarrow> canonical_glyph b)"

subsection \<open>The validity predicate of a contour\<close>

text \<open>The flag of a contour in the words of the specification: 1 when the area
  is strictly between the two bounds, the contour has no parent and its simplified
  polygon, with tolerance 1% of the perimeter, has 4 vertices; 0 otherwise.\<close>

definition card_flag :: "cv2 \<Rightarrow> contour \<Rightarrow> hier_entry \<Rightarrow> int" where
  "card_flag cv c e =
     (if 25000 < contourArea cv c \<and> contourArea cv c < 120000 \<and> parent e = - 1
         \<and> length (approxPolyDP cv c (0.01 * arcLength cv c)) = 4
      then 1 else 0)"

subsection \<open>What the code relies on from OpenCV\<close>

text \<open>A bounding rectangle (x, y, w, h) that lies inside an array and is at least one
  pixel wide and high.\<close>

definition rect_inside :: "int \<times> int \<times> int \<times> int \<Rightarrow> 'a list list \<Rightarrow> bool" where
  "rect_inside r a =
     (case r of (x, y, w, h) \<Rightarrow>
        0 \<le> x \<and> 0 \<le> y \<and> 1 \<le> w \<and> 1 \<le> h \<and>
        x + w \<le> int (snd (shape2 a)) \<and> y + h \<le> int (fst (shape2 a)))"

text \<open>
  The documented behaviour of the library that the invariants of a card rest on:
  \<^verbatim>\<open>findContours\<close> returns one hierarchy row per contour; the bounding rectangle of
  a contour found in an image lies inside that image; \<^verbatim>\<open>warpPerspective\<close> returns an
  image of the size \<^verbatim>\<open>dsize\<close> = (width, height) it is given; \<^verbatim>\<open>cvtColor\<close> keeps the
  numbers of rows and columns; \<^verbatim>\<open>resize\<close> of a non-empty image returns the size
  \<^verbatim>\<open>dsize\<close>, or, when \<^verbatim>\<open>dsize\<close> is (0, 0), the source size scaled by \<^verbatim>\<open>fx\<close> and
  \<^verbatim>\<open>fy\<close>.
\<close>

definition cv2_contract :: "cv2 \<Rightarrow> bool" where
  "cv2_contract cv \<longleftrightarrow>
     (\<forall>a. length (snd (findContours cv a)) = length (fst (findContours cv a))) \<and>
     (\<forall>a. list_all (\<lambda>c. rect_inside (boundingRect cv c) a) (fst (findContours cv a))) \<and>
     (\<forall>fr M w h. has_shape (warpPerspective cv fr M (w, h)) h w) \<and>
     (\<forall>fr. map length (cvtColor cv fr) = map length fr) \<and>
     (\<forall>src w h fx fy. src \<noteq> [] \<and> hd src \<noteq> [] \<longrightarrow>
          (if (w, h) = (0, 0)
           then has_shape (resize cv src (w, h) fx fy) (fy * length src) (fx * length (hd src))
           else has_shape (resize cv src (w, h) fx fy) h w))"

subsection \<open>Corner roles and quarter turns\<close>

text \<open>The first index of the minimum and of the maximum of a non-empty list, as
  \<^verbatim>\<open>np.argmin\<close> and \<^verbatim>\<open>np.argmax\<close> return it.\<close>

definition first_min :: "int list \<Rightarrow> nat" where
  "first_min xs = argmin_from (tl xs) 1 0 (hd xs)"

definition first_max :: "int list \<Rightarrow> nat" where
  "first_max xs = argmax_from (tl xs) 1 0 (hd xs)"

text \<open>The two keys of \<^verbatim>\<open>flattener\<close>: \<open>x + y\<close> and \<open>y - x\<close>.\<close>

definition coord_sum :: "point \<Rightarrow> int" where
  "coord_sum p = fst p + snd p"

definition coord_diff :: "point \<Rightarrow> int" where
  "coord_diff p = snd p - fst p"

text \<open>A quarter turn of a point about the centre \<open>c\<close> in image coordinates (the offset
  \<open>(dx, dy)\<close> becomes \<open>(- dy, dx)\<close>), and two and three quarter turns.\<close>

definition rot90 :: "point \<Rightarrow> point \<Rightarrow> point" where
  "rot90 c p = (fst c - (snd p - snd c), snd c + (fst p - fst c))"

definition rot180 :: "point \<Rightarrow> point \<Rightarrow> point" where
  "rot180 c p = rot90 c (rot90 c p)"

definition rot270 :: "point \<Rightarrow> point \<Rightarrow> point" where
  "rot270 c p = rot90 c (rot180 c p)"


subsection \<open>The order of the corner list\<close>


text \<open>The corner list, in that order, of the card turned by one, two and three quarter
  turns about \<open>c\<close>. The quarter turn \<open>rot90\<close> keeps the sense of rotation of the list
  and brings the leftmost corner, the second of the list, to the top, so the list of
  the turned card is the list of the turned corners started one corner on.\<close>

definition turn90 :: "point \<Rightarrow> point list \<Rightarrow> point list" where
  "turn90 c pts = rotate 1 (map (rot90 c) pts)"

definition turn180 :: "point \<Rightarrow> point list \<Rightarrow> point list" where
  "turn180 c pts = rotate 2 (map (rot180 c) pts)"

definition turn270 :: "point \<Rightarrow> point list \<Rightarrow> point list" where
  "turn270 c pts = rotate 3 (map (rot270 c) pts)"

section \<open>Concrete inputs\<close>

subsection \<open>Images, cards and template sets\<close>

text \<open>An image of the canonical size 70x100 with background \<open>bg\<close> and top-left pixel
  \<open>p\<close>; a card that carries only a glyph; a set of four templates in the order of
  \<^verbatim>\<open>load_suits\<close>.\<close>

definition glyph_with :: "pixel \<Rightarrow> pixel \<Rightarrow> image" where
  "glyph_with p bg = (p # replicate 69 bg) # replicate 99 (replicate 70 bg)"

definition card_with :: "image \<Rightarrow> Query_card" where
  "card_with g = Query_card_init\<lparr>suit_img := g\<rparr>"

definition suit_set :: "image \<Rightarrow> image \<Rightarrow> image \<Rightarrow> image \<Rightarrow> Train_suits list" where
  "suit_set a b c d =
     [\<lparr>img = Some a, name = ''Spades''\<rparr>, \<lparr>img = Some b, name = ''Diamonds''\<rparr>,
      \<lparr>img = Some c, name = ''Clubs''\<rparr>, \<lparr>img = Some d, name = ''Hearts''\<rparr>]"

text \<open>Four templates of the canonical size of which the first differs from the black
  glyph in one pixel by 100 and the second is the black glyph; a glyph of one row of
  10001 white pixels, and four black templates of that shape.\<close>

definition near_suits :: "Train_suits list" where
  "near_suits =
     suit_set (glyph_with 100 0) (glyph_with 0 0) (glyph_with 255 255) (glyph_with 255 255)"

definition wide_glyph :: image where
  "wide_glyph = [replicate 10001 255]"

definition wide_suits :: "Train_suits list" where
  "wide_suits =
     suit_set [replicate 10001 0] [replicate 10001 0] [replicate 10001 0] [replicate 10001 0]"

text \<open>A black 1280x720 mask, a dark rectified card, and three small grayscale images;
  \<open>gray_frame\<close> makes the colour frame whose three channels are the given image.\<close>

definition frame_mask :: image where
  "frame_mask = replicate 720 (replicate 1280 0)"

definition dark_warp :: image where
  "dark_warp = replicate 300 (replicate 200 12)"

definition striped_gray :: image where
  "striped_gray = [[200, 20, 200], [200, 20, 200], [200, 20, 200]]"

definition tall_gray :: image where
  "tall_gray = [[200], [20], [200], [3]]"

definition small_gray :: image where
  "small_gray = [[200, 10], [200, 10]]"

definition gray_frame :: "image \<Rightarrow> frame" where
  "gray_frame a = map (map (\<lambda>p. (p, p, p))) a"

text \<open>The corners of an upright card of 200 by 300 pixels, whose bounding box is 201 by
  301, and of a slightly tilted card with the same bounding box.\<close>

definition card_corners :: "point list" where
  "card_corners = [(100, 100), (300, 100), (300, 400), (100, 400)]"







subsection \<open>A stand-in for OpenCV\<close>

text \<open>
  Concrete functions in place of the library, used for the examples only: the area of a
  polygon by the shoelace formula, the perimeter of a polygon with axis-parallel edges,
  the bounding rectangle of a point list, and a \<^verbatim>\<open>findContours\<close> that returns those of
  four fixed rectangles that fit into the image (a card-sized one, one nested in it, an
  oversized and a small one), each with its hierarchy row.
\<close>

definition stub_contourArea :: "contour \<Rightarrow> real" where
  "stub_contourArea c =
     real_of_int \<bar>\<Sum>((x1, y1), (x2, y2)) \<leftarrow> zip c (rotate1 c). x1 * y2 - x2 * y1\<bar> / 2"

definition stub_arcLength :: "contour \<Rightarrow> real" where
  "stub_arcLength c =
     real_of_int (\<Sum>((x1, y1), (x2, y2)) \<leftarrow> zip c (rotate1 c). \<bar>x2 - x1\<bar> + \<bar>y2 - y1\<bar>)"

definition stub_boundingRect :: "contour \<Rightarrow> int \<times> int \<times> int \<times> int" where
  "stub_boundingRect c =
     (case c of
        [] \<Rightarrow> (0, 0, 0, 0)
      | p # ps \<Rightarrow>
          (let x0 = fold min (map fst ps) (fst p); x1 = fold max (map fst ps) (fst p);
               y0 = fold min (map snd ps) (snd p); y1 = fold max (map snd ps) (snd p)
           in (x0, y0, x1 - x0 + 1, y1 - y0 + 1)))"

definition stub_contours :: "(contour \<times> hier_entry) list" where
  "stub_contours =
     [([(100, 100), (300, 100), (300, 400), (100, 400)], (1, - 1, 1, - 1)),
      ([(120, 120), (280, 120), (280, 380), (120, 380)], (- 1, - 1, - 1, 0)),
      ([(0, 0), (500, 0), (500, 400), (0, 400)], (3, 0, - 1, - 1)),
      ([(10, 10), (50, 10), (50, 60), (10, 60)], (- 1, 2, - 1, - 1))]"

definition stub_findContours :: "image \<Rightarrow> contour list \<times> hier_entry list" where
  "stub_findContours a =
     (let found = filter (\<lambda>(c, e). rect_inside (stub_boundingRect c) a) stub_contours
      in (map fst found, map snd found))"

text \<open>A warp that returns a uniformly light image of the requested size, the green
  channel as gray level, and a resize that fills the target size with the first pixel
  of the source.\<close>

definition stub_getPerspectiveTransform :: "point list \<Rightarrow> point list \<Rightarrow> real list list" where
  "stub_getPerspectiveTransform src dst = []"

definition stub_warpPerspective :: "frame \<Rightarrow> real list list \<Rightarrow> nat \<times> nat \<Rightarrow> frame" where
  "stub_warpPerspective fr M dsize = replicate (snd dsize) (replicate (fst dsize) (200, 200, 200))"

definition stub_cvtColor :: "frame \<Rightarrow> image" where
  "stub_cvtColor fr = map (map (\<lambda>(b, g, r). g)) fr"

definition stub_resize :: "image \<Rightarrow> nat \<times> nat \<Rightarrow> nat \<Rightarrow> nat \<Rightarrow> image" where
  "stub_resize src dsize fx fy =
     (if dsize = (0, 0)
      then replicate (fy * length src) (replicate (fx * length (hd src)) (hd (hd src)))
      else replicate (snd dsize) (replicate (fst dsize) (hd (hd src))))"

text \<open>The 5x5 smoothing with the binomial kernel (1, 4, 6, 4, 1) / 16, rows first and
  then columns, rounded to the nearest integer, with the border mirrored about the
  edge pixel: the kernel and the border rule of \<^verbatim>\<open>cv2.GaussianBlur(gray,(5,5),0)\<close>.\<close>

definition reflect101 :: "nat \<Rightarrow> int \<Rightarrow> nat" where
  "reflect101 n i =
     (if n \<le> 1 then 0
      else (let m = 2 * int n - 2; j = i mod m in nat (if int n \<le> j then m - j else j)))"

definition blur_row :: "int list \<Rightarrow> int list" where
  "blur_row xs =
     map (\<lambda>i. (xs ! reflect101 (length xs) (int i - 2) + 4 * xs ! reflect101 (length xs) (int i - 1)
               + 6 * xs ! i + 4 * xs ! reflect101 (length xs) (int i + 1)
               + xs ! reflect101 (length xs) (int i + 2) + 8) div 16) [0..<length xs]"

definition stub_GaussianBlur :: "image \<Rightarrow> image" where
  "stub_GaussianBlur a =
     map (map word_of_int)
       (transpose (map blur_row (transpose (map blur_row (map (map uint) a)))))"

text \<open>A directory in which every template file holds the same image, and one in which
  the file of Hearts is missing.\<close>

definition stub_imread :: "string \<Rightarrow> image option" where
  "stub_imread path = Some (glyph_with 255 0)"

definition hearts_missing :: "string \<Rightarrow> image option" where
  "hearts_missing path =
     (if path = ''Card_Imgs/Hearts.jpg'' then None else Some (glyph_with 255 0))"

definition cv_stub :: cv2 where
  "cv_stub =
     \<lparr>imread = stub_imread, cvtColor = stub_cvtColor, GaussianBlur = stub_GaussianBlur,
      findContours = stub_findContours, contourArea = stub_contourArea,
      arcLength = stub_arcLength, approxPolyDP = (\<lambda>c eps. c),
      boundingRect = stub_boundingRect,
      getPerspectiveTransform = stub_getPerspectiveTransform,
      warpPerspective = stub_warpPerspective, resize = stub_resize\<rparr>"

definition cv_hearts_missing :: cv2 where
  "cv_hearts_missing = cv_stub\<lparr>imread := hearts_missing\<rparr>"

section \<open>match_card\<close>

lemma uint_absd: "uint (absd x y) = \<bar>uint x - uint y\<bar>"
  unfolding absd_def
  using uint_sub_lem word_less_eq_iff_unsigned by force

lemma np_sum_absdiff:
  "absdiff a (Some b) = Inr d \<Longrightarrow> np_sum d = pixel_diff_sum a b"
  by (auto simp: absdiff_def np_sum_def pixel_diff_sum_def uint_absd o_def split_def
        split: if_splits intro!: arg_cong[where f=sum_list])

lemma absdiff_same_shape:
  "same_shape g t \<Longrightarrow> \<exists>d. absdiff g (img t) = Inr d \<and> np_sum d div 255 = suit_score g t"
proof -
  assume "same_shape g t"
  then obtain b where b: "img t = Some b" "map length g = map length b"
    by (auto simp: same_shape_def split: option.splits)
  then have d: "absdiff g (img t) = Inr (map2 (map2 absd) g b)"
    by (simp add: absdiff_def)
  from np_sum_absdiff[OF d[unfolded b(1)]] b(1) d show ?thesis
    by (simp add: suit_score_def)
qed

lemma pixel_diff_sum_nonneg: "0 \<le> pixel_diff_sum a b"
  unfolding pixel_diff_sum_def
  by (auto intro!: sum_list_nonneg simp: split_def)

lemma suit_score_nonneg: "0 \<le> suit_score g t"
  by (auto simp: suit_score_def pixel_diff_sum_nonneg pos_imp_zdiv_nonneg_iff split: option.splits)

lemma match_loop_keeps_card: "fst (match_loop q ts v) = q"
  by (induction ts arbitrary: v) (auto split: sum.splits simp: Let_def)

lemma fold_min_le: "fold min xs (b::int) \<le> b"
proof (induction xs arbitrary: b)
  case Nil then show ?case by simp
next
  case (Cons x xs)
  have "fold min xs (min x b) \<le> min x b" by (rule Cons.IH)
  then show ?case by simp
qed

lemma fold_min_Min: "xs \<noteq> [] \<Longrightarrow> fold min xs (b::int) = min b (Min (set xs))"
proof (induction xs arbitrary: b)
  case Nil then show ?case by simp
next
  case (Cons x xs)
  show ?case
  proof (cases "xs = []")
    case True then show ?thesis by (simp add: min.commute)
  next
    case False
    with Cons.IH[of "min x b"] show ?thesis by (simp add: min.assoc min.commute min.left_commute)
  qed
qed

lemma match_loop_char:
  assumes "\<forall>t\<in>set ts. same_shape (suit_img q) t"
  shows "\<exists>v'. match_loop q ts v = (q, Inr v') \<and>
          best_suit_match_diff v' = fold min (map (suit_score (suit_img q)) ts) (best_suit_match_diff v) \<and>
          (best_suit_match_diff v' = best_suit_match_diff v \<longrightarrow> v' = v) \<and>
          (best_suit_match_diff v' < best_suit_match_diff v \<longrightarrow>
             (\<exists>k<length ts. best_suit_name v' = Some (name (ts ! k)) \<and>
                 suit_score (suit_img q) (ts ! k) = best_suit_match_diff v' \<and>
                 (\<forall>j<k. best_suit_match_diff v' < suit_score (suit_img q) (ts ! j))))"
  using assms
proof (induction ts arbitrary: v)
  case Nil
  then show ?case by simp
next
  case (Cons t ts)
  let ?g = "suit_img q"
  let ?s = "suit_score ?g t"
  from Cons.prems obtain d where d: "absdiff ?g (img t) = Inr d" "np_sum d div 255 = ?s"
    using absdiff_same_shape[of ?g t] by auto
  from Cons.prems have rest: "\<forall>t\<in>set ts. same_shape ?g t" by simp
  show ?case
  proof (cases "?s < best_suit_match_diff v")
    case True
    let ?v1 = "v\<lparr>best_suit_diff_img := Some d, best_suit_match_diff := ?s,
                 best_suit_name := Some (name t)\<rparr>"
    from Cons.IH[OF rest, of ?v1] have "\<exists>v'. match_loop q ts ?v1 = (q, Inr v') \<and>
        best_suit_match_diff v' = fold min (map (suit_score ?g) ts) ?s \<and>
        (best_suit_match_diff v' = ?s \<longrightarrow> v' = ?v1) \<and>
        (best_suit_match_diff v' < ?s \<longrightarrow>
             (\<exists>k<length ts. best_suit_name v' = Some (name (ts ! k)) \<and>
                 suit_score ?g (ts ! k) = best_suit_match_diff v' \<and>
                 (\<forall>j<k. best_suit_match_diff v' < suit_score ?g (ts ! j))))" by simp
    then obtain v' where
      v': "match_loop q ts ?v1 = (q, Inr v')"
        "best_suit_match_diff v' = fold min (map (suit_score ?g) ts) ?s"
        "best_suit_match_diff v' = ?s \<longrightarrow> v' = ?v1"
        "best_suit_match_diff v' < ?s \<longrightarrow>
             (\<exists>k<length ts. best_suit_name v' = Some (name (ts ! k)) \<and>
                 suit_score ?g (ts ! k) = best_suit_match_diff v' \<and>
                 (\<forall>j<k. best_suit_match_diff v' < suit_score ?g (ts ! j)))"
      by blast
    have le: "best_suit_match_diff v' \<le> ?s" using v'(2) fold_min_le by simp
    have run: "match_loop q (t # ts) v = (q, Inr v')" using d True v'(1) by simp
    have fold: "best_suit_match_diff v' =
        fold min (map (suit_score ?g) (t # ts)) (best_suit_match_diff v)"
      using v'(2) True by (simp add: min_def)
    have idx: "\<exists>k<length (t # ts). best_suit_name v' = Some (name ((t # ts) ! k)) \<and>
                 suit_score ?g ((t # ts) ! k) = best_suit_match_diff v' \<and>
                 (\<forall>j<k. best_suit_match_diff v' < suit_score ?g ((t # ts) ! j))"
    proof (cases "best_suit_match_diff v' < ?s")
      case True
      with v'(4) obtain k where k: "k < length ts" "best_suit_name v' = Some (name (ts ! k))"
        "suit_score ?g (ts ! k) = best_suit_match_diff v'"
        "\<forall>j<k. best_suit_match_diff v' < suit_score ?g (ts ! j)" by auto
      have "\<forall>j<Suc k. best_suit_match_diff v' < suit_score ?g ((t # ts) ! j)"
        using k(4) True by (auto simp: nth_Cons split: nat.splits)
      with k show ?thesis by (intro exI[of _ "Suc k"]) simp
    next
      case False
      with le v'(3) have "v' = ?v1" by simp
      then show ?thesis by (intro exI[of _ 0]) simp
    qed
    from run fold idx le True show ?thesis by auto
  next
    case False
    from Cons.IH[OF rest, of v] obtain v' where
      v': "match_loop q ts v = (q, Inr v')"
        "best_suit_match_diff v' = fold min (map (suit_score ?g) ts) (best_suit_match_diff v)"
        "best_suit_match_diff v' = best_suit_match_diff v \<longrightarrow> v' = v"
        "best_suit_match_diff v' < best_suit_match_diff v \<longrightarrow>
             (\<exists>k<length ts. best_suit_name v' = Some (name (ts ! k)) \<and>
                 suit_score ?g (ts ! k) = best_suit_match_diff v' \<and>
                 (\<forall>j<k. best_suit_match_diff v' < suit_score ?g (ts ! j)))"
      by blast
    have run: "match_loop q (t # ts) v = (q, Inr v')" using d False v'(1) by simp
    have fold: "best_suit_match_diff v' =
        fold min (map (suit_score ?g) (t # ts)) (best_suit_match_diff v)"
      using v'(2) False by (simp add: min_def)
    have idx: "best_suit_match_diff v' < best_suit_match_diff v \<longrightarrow>
       (\<exists>k<length (t # ts). best_suit_name v' = Some (name ((t # ts) ! k)) \<and>
                 suit_score ?g ((t # ts) ! k) = best_suit_match_diff v' \<and>
                 (\<forall>j<k. best_suit_match_diff v' < suit_score ?g ((t # ts) ! j)))"
    proof
      assume lt: "best_suit_match_diff v' < best_suit_match_diff v"
      with v'(4) obtain k where k: "k < length ts" "best_suit_name v' = Some (name (ts ! k))"
        "suit_score ?g (ts ! k) = best_suit_match_diff v'"
        "\<forall>j<k. best_suit_match_diff v' < suit_score ?g (ts ! j)" by auto
      have "\<forall>j<Suc k. best_suit_match_diff v' < suit_score ?g ((t # ts) ! j)"
        using k(4) lt False by (auto simp: nth_Cons split: nat.splits)
      with k show "\<exists>k<length (t # ts). best_suit_name v' = Some (name ((t # ts) ! k)) \<and>
                 suit_score ?g ((t # ts) ! k) = best_suit_match_diff v' \<and>
                 (\<forall>j<k. best_suit_match_diff v' < suit_score ?g ((t # ts) ! j))"
        by (intro exI[of _ "Suc k"]) simp
    qed
    from run fold idx v'(3) show ?thesis by auto
  qed
qed

lemma row_diff_bound:
  "(\<Sum>(x, y) \<leftarrow> zip ra rb. \<bar>uint (x::pixel) - uint (y::pixel)\<bar>) \<le> 255 * int (length ra)"
proof (induction ra arbitrary: rb)
  case Nil then show ?case by simp
next
  case (Cons x ra)
  show ?case
  proof (cases rb)
    case Nil then show ?thesis by simp
  next
    case (Cons y rb')
    have "uint x < 256" "uint y < 256" "0 \<le> uint x" "0 \<le> uint y"
      using uint_bounded[of x] uint_bounded[of y] by simp_all
    then have "\<bar>uint x - uint y\<bar> \<le> 255" by linarith
    with Cons.IH[of rb'] Cons show ?thesis by simp
  qed
qed

lemma pixel_diff_sum_bound:
  "pixel_diff_sum a b \<le> 255 * int (sum_list (map length a))"
  unfolding pixel_diff_sum_def
proof (induction a arbitrary: b)
  case Nil then show ?case by simp
next
  case (Cons ra a)
  show ?case
  proof (cases b)
    case Nil then show ?thesis by simp
  next
    case (Cons rb b')
    from Cons.IH[of b'] row_diff_bound[of ra rb] Cons show ?thesis
      by (simp add: algebra_simps)
  qed
qed

lemma canonical_pixels: "canonical_glyph g \<Longrightarrow> sum_list (map length g) = 7000"
proof -
  assume c: "canonical_glyph g"
  have "map length g = replicate 100 70"
  proof (rule replicate_eqI)
    show "length (map length g) = 100"
      using c by (simp add: canonical_glyph_def SUIT_HEIGHT_def)
    show "\<And>y. y \<in> set (map length g) \<Longrightarrow> y = 70"
      using c by (auto simp: canonical_glyph_def SUIT_WIDTH_def list_all_iff)
  qed
  then show ?thesis by (simp add: sum_list_replicate)
qed

lemma canonical_score_bound: "canonical_glyph g \<Longrightarrow> suit_score g t \<le> 7000"
proof -
  assume c: "canonical_glyph g"
  show ?thesis
  proof (cases "img t")
    case None then show ?thesis by (simp add: suit_score_def)
  next
    case (Some b)
    have "pixel_diff_sum g b \<le> 255 * 7000"
      using pixel_diff_sum_bound[of g b] canonical_pixels[OF c] by simp
    then have "pixel_diff_sum g b div 255 \<le> 7000" by linarith
    with Some show ?thesis by (simp add: suit_score_def)
  qed
qed

lemma first_min_index:
  fixes f :: "nat \<Rightarrow> int"
  assumes "0 < n"
  shows "\<exists>k<n. (\<forall>j<n. f k \<le> f j) \<and> (\<forall>j<k. f k < f j)"
proof -
  let ?m = "Min (f ` {..<n})"
  have fin: "finite (f ` {..<n})" "f ` {..<n} \<noteq> {}" using assms by auto
  then have "?m \<in> f ` {..<n}" by (rule Min_in)
  then have ex: "\<exists>k. k < n \<and> f k = ?m" by auto
  define k where "k = (LEAST k. k < n \<and> f k = ?m)"
  have k: "k < n \<and> f k = ?m" unfolding k_def by (rule LeastI_ex[OF ex])
  have least: "\<And>j. j < k \<Longrightarrow> \<not> (j < n \<and> f j = ?m)"
    unfolding k_def by (rule not_less_Least)
  have le: "\<forall>j<n. f k \<le> f j" using k fin by auto
  have "\<forall>j<k. f k < f j"
  proof (intro allI impI)
    fix j assume "j < k"
    with least[of j] k have "f j \<noteq> ?m" "j < n" by auto
    with le k show "f k < f j" by (metis order_less_le)
  qed
  with k le show ?thesis by blast
qed

lemma match_card_empty:
  "suit_img q = [] \<Longrightarrow> match_card q ts = (q, Inr (''Unknown'', 10000))"
  by (simp add: match_card_def SUIT_DIFF_MAX_def)

lemma match_card_nonempty:
  assumes ne: "suit_img q \<noteq> []" and ts: "ts \<noteq> []"
    and sh: "\<forall>t\<in>set ts. same_shape (suit_img q) t"
    and k: "k < length ts"
      "\<forall>j<length ts. suit_score (suit_img q) (ts ! k) \<le> suit_score (suit_img q) (ts ! j)"
      "\<forall>j<k. suit_score (suit_img q) (ts ! k) < suit_score (suit_img q) (ts ! j)"
  shows "match_card q ts =
           (q, Inr (if suit_score (suit_img q) (ts ! k) < 700 then name (ts ! k) else ''Unknown'',
                min 10000 (suit_score (suit_img q) (ts ! k))))"
proof -
  let ?g = "suit_img q"
  let ?sc = "\<lambda>t. suit_score ?g t"
  let ?v0 = "\<lparr>best_suit_match_diff = 10000, best_suit_name = None, best_suit_diff_img = None\<rparr>"
  have minval: "Min (set (map ?sc ts)) = ?sc (ts ! k)"
  proof (rule Min_eqI)
    show "finite (set (map ?sc ts))" by simp
    show "\<And>y. y \<in> set (map ?sc ts) \<Longrightarrow> ?sc (ts ! k) \<le> y"
      using k(2) by (auto simp: in_set_conv_nth)
    show "?sc (ts ! k) \<in> set (map ?sc ts)" using k(1) by auto
  qed
  from match_loop_char[OF sh, of ?v0] have "\<exists>v'. match_loop q ts ?v0 = (q, Inr v') \<and>
      best_suit_match_diff v' = fold min (map ?sc ts) 10000 \<and>
      (best_suit_match_diff v' = 10000 \<longrightarrow> v' = ?v0) \<and>
      (best_suit_match_diff v' < 10000 \<longrightarrow>
         (\<exists>k'<length ts. best_suit_name v' = Some (name (ts ! k')) \<and>
             ?sc (ts ! k') = best_suit_match_diff v' \<and>
             (\<forall>j<k'. best_suit_match_diff v' < ?sc (ts ! j))))" by simp
  then obtain v' where
    v': "match_loop q ts ?v0 = (q, Inr v')"
      "best_suit_match_diff v' = fold min (map ?sc ts) 10000"
      "best_suit_match_diff v' = 10000 \<longrightarrow> v' = ?v0"
      "best_suit_match_diff v' < 10000 \<longrightarrow>
         (\<exists>k'<length ts. best_suit_name v' = Some (name (ts ! k')) \<and>
             ?sc (ts ! k') = best_suit_match_diff v' \<and>
             (\<forall>j<k'. best_suit_match_diff v' < ?sc (ts ! j)))"
    by blast
  have bd: "best_suit_match_diff v' = min 10000 (?sc (ts ! k))"
    using v'(2) fold_min_Min[of "map ?sc ts" 10000] ts minval by simp
  show ?thesis
  proof (cases "?sc (ts ! k) < 700")
    case True
    then have lt: "best_suit_match_diff v' < 10000" and eq: "best_suit_match_diff v' = ?sc (ts ! k)"
      using bd by auto
    with v'(4) obtain k' where k': "k' < length ts" "best_suit_name v' = Some (name (ts ! k'))"
      "?sc (ts ! k') = best_suit_match_diff v'" "\<forall>j<k'. best_suit_match_diff v' < ?sc (ts ! j)"
      by auto
    have "k' = k"
    proof (rule ccontr)
      assume "k' \<noteq> k"
      then consider "k' < k" | "k < k'" by linarith
      then show False
      proof cases
        case 1 with k(3) k'(3) eq show False by auto
      next
        case 2 with k'(4) eq show False by auto
      qed
    qed
    with k' v'(1) ne True eq show ?thesis
      by (simp add: match_card_def SUIT_DIFF_MAX_def)
  next
    case False
    then have "\<not> best_suit_match_diff v' < 700" using bd by auto
    with v'(1) ne False bd show ?thesis
      by (simp add: match_card_def SUIT_DIFF_MAX_def)
  qed
qed

lemma pixel_diff_sum_self: "pixel_diff_sum g g = 0"
  unfolding pixel_diff_sum_def
  by (auto simp: zip_same_conv_map o_def sum_list_0 intro!: sum_list_0)

lemma suit_score_identical: "img t = Some g \<Longrightarrow> suit_score g t = 0"
  by (simp add: suit_score_def pixel_diff_sum_self)

text \<open>
  Claim C1, as amended. For every query card and every list of train suits:
  with an empty suit glyph \<^verbatim>\<open>match_card\<close> returns \<open>''Unknown''\<close> and the sentinel
  score 10000, whatever the templates are. With a non-empty glyph and a non-empty list
  of templates that all have the glyph's shape, the winner is the first template of
  minimal score, the score being the sum of the absolute per-pixel differences divided
  by 255 and rounded down; the returned score is that minimum capped by the sentinel
  10000, and it is the minimum itself for a glyph of the canonical size 70x100; the
  label is the winner's name when the minimum is below 700 and \<open>''Unknown''\<close>
  otherwise. A glyph that is pixel-identical to a template yields score 0, and yields
  that template's name when every earlier template has a score above 0; otherwise
  the first template of score 0 wins.
\<close>

theorem match_card_spec:
  "(suit_img q = [] \<longrightarrow> match_card q ts = (q, Inr (''Unknown'', 10000))) \<and>
   (suit_img q \<noteq> [] \<and> ts \<noteq> [] \<and> (\<forall>t\<in>set ts. same_shape (suit_img q) t) \<longrightarrow>
      (\<exists>k<length ts.
          (\<forall>j<length ts. suit_score (suit_img q) (ts ! k) \<le> suit_score (suit_img q) (ts ! j)) \<and>
          (\<forall>j<k. suit_score (suit_img q) (ts ! k) < suit_score (suit_img q) (ts ! j)) \<and>
          match_card q ts =
            (q, Inr (if suit_score (suit_img q) (ts ! k) < 700 then name (ts ! k) else ''Unknown'',
                 min 10000 (suit_score (suit_img q) (ts ! k)))) \<and>
          (canonical_glyph (suit_img q) \<longrightarrow>
             min 10000 (suit_score (suit_img q) (ts ! k)) = suit_score (suit_img q) (ts ! k))) \<and>
      (\<forall>i<length ts.
          img (ts ! i) = Some (suit_img q) \<and> (\<forall>j<i. 0 < suit_score (suit_img q) (ts ! j)) \<longrightarrow>
          match_card q ts = (q, Inr (name (ts ! i), 0))))"
proof (intro conjI impI)
  assume "suit_img q = []"
  then show "match_card q ts = (q, Inr (''Unknown'', 10000))" by (rule match_card_empty)
next
  assume a: "suit_img q \<noteq> [] \<and> ts \<noteq> [] \<and> (\<forall>t\<in>set ts. same_shape (suit_img q) t)"
  let ?sc = "\<lambda>i. suit_score (suit_img q) (ts ! i)"
  from a have "0 < length ts" by simp
  from first_min_index[OF this, of ?sc] obtain k where
    k: "k < length ts" "\<forall>j<length ts. ?sc k \<le> ?sc j" "\<forall>j<k. ?sc k < ?sc j" by blast
  have run: "match_card q ts =
      (q, Inr (if ?sc k < 700 then name (ts ! k) else ''Unknown'', min 10000 (?sc k)))"
    using a k by (intro match_card_nonempty) simp_all
  have "canonical_glyph (suit_img q) \<longrightarrow> min 10000 (?sc k) = ?sc k"
    using canonical_score_bound[of "suit_img q" "ts ! k"] by auto
  with k run show "\<exists>k<length ts.
          (\<forall>j<length ts. ?sc k \<le> ?sc j) \<and> (\<forall>j<k. ?sc k < ?sc j) \<and>
          match_card q ts =
            (q, Inr (if ?sc k < 700 then name (ts ! k) else ''Unknown'', min 10000 (?sc k))) \<and>
          (canonical_glyph (suit_img q) \<longrightarrow> min 10000 (?sc k) = ?sc k)"
    by blast
next
  assume a: "suit_img q \<noteq> [] \<and> ts \<noteq> [] \<and> (\<forall>t\<in>set ts. same_shape (suit_img q) t)"
  let ?sc = "\<lambda>i. suit_score (suit_img q) (ts ! i)"
  show "\<forall>i<length ts.
          img (ts ! i) = Some (suit_img q) \<and> (\<forall>j<i. 0 < ?sc j) \<longrightarrow>
          match_card q ts = (q, Inr (name (ts ! i), 0))"
  proof (intro allI impI)
    fix i assume i: "i < length ts" and h: "img (ts ! i) = Some (suit_img q) \<and> (\<forall>j<i. 0 < ?sc j)"
    then have z: "?sc i = 0" by (simp add: suit_score_identical)
    have "match_card q ts =
      (q, Inr (if ?sc i < 700 then name (ts ! i) else ''Unknown'', min 10000 (?sc i)))"
      using a i h z suit_score_nonneg by (intro match_card_nonempty) simp_all
    with z show "match_card q ts = (q, Inr (name (ts ! i), 0))" by simp
  qed
qed

lemma score_glyph_with:
  "suit_score (glyph_with p bg) \<lparr>img = Some (glyph_with p' bg'), name = n\<rparr> =
     (\<bar>uint p - uint p'\<bar> + 6999 * \<bar>uint bg - uint bg'\<bar>) div 255"
  by (simp add: suit_score_def pixel_diff_sum_def glyph_with_def sum_list_replicate)

lemma same_shape_glyph_with:
  "same_shape (glyph_with p bg) \<lparr>img = Some (glyph_with p' bg'), name = n\<rparr>"
  by (simp add: same_shape_def glyph_with_def)

text \<open>The theorem at a card whose glyph, of the canonical size, equals the second
  template: the hypotheses hold there and the call returns Diamonds with score 0.\<close>

theorem match_card_spec_witness:
  "suit_img (card_with (glyph_with 255 0)) \<noteq> [] \<and>
   list_all (same_shape (suit_img (card_with (glyph_with 255 0))))
     (suit_set (glyph_with 0 255) (glyph_with 255 0) (glyph_with 0 0) (glyph_with 255 255)) \<and>
   match_card (card_with (glyph_with 255 0))
     (suit_set (glyph_with 0 255) (glyph_with 255 0) (glyph_with 0 0) (glyph_with 255 255)) =
     (card_with (glyph_with 255 0), Inr (''Diamonds'', 0))"
proof -
  let ?q = "card_with (glyph_with 255 0)"
  let ?ts = "suit_set (glyph_with 0 255) (glyph_with 255 0) (glyph_with 0 0) (glyph_with 255 255)"
  have g: "suit_img ?q = glyph_with 255 0" by (simp add: card_with_def)
  have ne: "suit_img ?q \<noteq> []" unfolding g by (simp add: glyph_with_def)
  have sh: "list_all (same_shape (suit_img ?q)) ?ts"
    by (simp add: g suit_set_def same_shape_glyph_with)
  have pre: "suit_img ?q \<noteq> [] \<and> ?ts \<noteq> [] \<and> (\<forall>t\<in>set ?ts. same_shape (suit_img ?q) t)"
    using ne sh by (simp add: list_all_iff suit_set_def)
  have hyp: "img (?ts ! 1) = Some (suit_img ?q) \<and> (\<forall>j<1. 0 < suit_score (suit_img ?q) (?ts ! j))"
    by (simp add: g suit_set_def score_glyph_with)
  have "1 < length ?ts" by (simp add: suit_set_def)
  with match_card_spec[of ?q ?ts] pre hyp
  have "match_card ?q ?ts = (?q, Inr (name (?ts ! 1), 0))" by blast
  then have "match_card ?q ?ts = (?q, Inr (''Diamonds'', 0))" by (simp add: suit_set_def)
  with ne sh show ?thesis by blast
qed

lemma absdiff_glyph_with:
  "absdiff (glyph_with p bg) (Some (glyph_with p' bg')) =
     Inr (glyph_with (absd p p') (absd bg bg'))"
  by (simp add: absdiff_def glyph_with_def)

lemma np_sum_glyph_with: "np_sum (glyph_with p bg) = uint p + 6999 * uint bg"
  by (simp add: np_sum_def glyph_with_def sum_list_replicate)

lemma glyph_with_nonempty: "glyph_with p bg \<noteq> []"
  by (simp add: glyph_with_def)

lemma absdiff_wide:
  "absdiff [replicate n a] (Some [replicate n b]) = Inr [replicate n (absd a b)]"
  by (simp add: absdiff_def)

lemma np_sum_wide: "np_sum [replicate n a] = int n * uint a"
  by (simp add: np_sum_def sum_list_replicate)

text \<open>
  The claim as stated fails twice. A glyph of the canonical size that is
  pixel-identical to the Diamonds template only, while Spades differs from it in one
  pixel by 100 (a sum below 255, hence score 0): the call returns Spades. A glyph
  of 10001 pixels at distance 255 from every template: every score is 10001 and the
  call returns the sentinel 10000, which is not the minimum of the scores.
\<close>

theorem match_card_identical_counterexample:
  "match_card (card_with (glyph_with 0 0)) near_suits =
     (card_with (glyph_with 0 0), Inr (''Spades'', 0)) \<and>
   canonical_glyph (suit_img (card_with (glyph_with 0 0))) \<and>
   name (near_suits ! 1) = ''Diamonds'' \<and>
   img (near_suits ! 1) = Some (suit_img (card_with (glyph_with 0 0))) \<and>
   img (near_suits ! 0) \<noteq> Some (suit_img (card_with (glyph_with 0 0))) \<and>
   img (near_suits ! 2) \<noteq> Some (suit_img (card_with (glyph_with 0 0))) \<and>
   img (near_suits ! 3) \<noteq> Some (suit_img (card_with (glyph_with 0 0))) \<and>
   match_card (card_with wide_glyph) wide_suits =
     (card_with wide_glyph, Inr (''Unknown'', 10000)) \<and>
   list_all (\<lambda>t. suit_score (suit_img (card_with wide_glyph)) t = 10001) wide_suits"
proof -
  have g: "suit_img (card_with (glyph_with 0 0)) = glyph_with 0 0"
    "suit_img (card_with wide_glyph) = wide_glyph"
    by (simp_all add: card_with_def)
  have a: "match_card (card_with (glyph_with 0 0)) near_suits =
     (card_with (glyph_with 0 0), Inr (''Spades'', 0))"
    by (simp add: match_card_def card_with_def Query_card_init_def near_suits_def suit_set_def
          absdiff_glyph_with np_sum_glyph_with absd_def SUIT_DIFF_MAX_def Let_def
          glyph_with_nonempty)
  have c: "canonical_glyph (suit_img (card_with (glyph_with 0 0)))"
    unfolding g
    by (simp add: canonical_glyph_def glyph_with_def SUIT_HEIGHT_def SUIT_WIDTH_def list_all_iff)
  have b: "name (near_suits ! 1) = ''Diamonds''"
    "img (near_suits ! 1) = Some (suit_img (card_with (glyph_with 0 0)))"
    "img (near_suits ! 0) \<noteq> Some (suit_img (card_with (glyph_with 0 0)))"
    "img (near_suits ! 2) \<noteq> Some (suit_img (card_with (glyph_with 0 0)))"
    "img (near_suits ! 3) \<noteq> Some (suit_img (card_with (glyph_with 0 0)))"
    unfolding g by (simp_all add: near_suits_def suit_set_def glyph_with_def)
  have d: "match_card (card_with wide_glyph) wide_suits =
     (card_with wide_glyph, Inr (''Unknown'', 10000))"
    by (simp add: match_card_def card_with_def Query_card_init_def wide_suits_def suit_set_def
          wide_glyph_def absdiff_wide np_sum_wide absd_def SUIT_DIFF_MAX_def Let_def)
  have e: "list_all (\<lambda>t. suit_score (suit_img (card_with wide_glyph)) t = 10001) wide_suits"
    unfolding g
    by (simp add: wide_suits_def suit_set_def wide_glyph_def suit_score_def pixel_diff_sum_def
          sum_list_replicate)
  show ?thesis
    by (intro conjI) (rule a, rule c, rule b(1), rule b(2), rule b(3), rule b(4), rule b(5),
        rule d, rule e)
qed

section \<open>Slices of constant images\<close>

lemma slice_bound_le: "slice_bound n i \<le> n"
  unfolding slice_bound_def by (cases "i < 0") simp_all

lemma py_slice_replicate:
  "py_slice lo hi (replicate n x) = replicate (slice_bound n hi - slice_bound n lo) x"
proof -
  have "slice_bound n hi - slice_bound n lo \<le> n - slice_bound n lo"
    using slice_bound_le[of n hi] by simp
  then show ?thesis by (simp add: py_slice_def Let_def min_def)
qed

lemma slice2_replicate:
  "slice2 (replicate m (replicate n x)) r0 r1 c0 c1 =
     replicate (slice_bound m r1 - slice_bound m r0)
       (replicate (slice_bound n c1 - slice_bound n c0) x)"
  by (simp add: slice2_def py_slice_replicate)

section \<open>The card is not modified by match_card\<close>

text \<open>
  Claim C10. \<^verbatim>\<open>match_card\<close> leaves the query card as it received it, field by
  field, whether it returns or raises; its result is the pair of label and score in
  the second component.
\<close>

theorem match_card_frame:
  "fst (match_card q ts) = q \<and>
   contour (fst (match_card q ts)) = contour q \<and>
   width (fst (match_card q ts)) = width q \<and>
   height (fst (match_card q ts)) = height q \<and>
   corner_pts (fst (match_card q ts)) = corner_pts q \<and>
   center (fst (match_card q ts)) = center q \<and>
   warp (fst (match_card q ts)) = warp q \<and>
   suit_img (fst (match_card q ts)) = suit_img q \<and>
   best_suit_match (fst (match_card q ts)) = best_suit_match q \<and>
   suit_diff (fst (match_card q ts)) = suit_diff q"
proof -
  let ?v0 = "\<lparr>best_suit_match_diff = 10000, best_suit_name = None, best_suit_diff_img = None\<rparr>"
  obtain q' r where run: "match_loop q ts ?v0 = (q', r)" by (cases "match_loop q ts ?v0")
  with match_loop_keeps_card[of q ts ?v0] have "q' = q" by simp
  with run have "fst (match_card q ts) = q"
    by (simp add: match_card_def Let_def split: sum.splits option.splits)
  then show ?thesis by simp
qed

text \<open>The theorem at a call that raises (the last template has another shape): the
  card is still the one passed in.\<close>

theorem match_card_frame_witness:
  "fst (match_card (card_with [[7, 200]])
          (suit_set [[7, 200]] [[0, 0]] [[1, 2]] [[3]])) = card_with [[7, 200]] \<and>
   snd (match_card (card_with [[7, 200]])
          (suit_set [[7, 200]] [[0, 0]] [[1, 2]] [[3]])) = Inl Cv2Error"
proof -
  have "snd (match_card (card_with [[7, 200]])
          (suit_set [[7, 200]] [[0, 0]] [[1, 2]] [[3]])) = Inl Cv2Error"
    by (simp add: match_card_def card_with_def Query_card_init_def suit_set_def
         absdiff_def np_sum_def absd_def Let_def)
  with match_card_frame[of "card_with [[7, 200]]" "suit_set [[7, 200]] [[0, 0]] [[1, 2]] [[3]]"]
  show ?thesis by blast
qed

section \<open>The cutoff of the suit extraction\<close>

lemma card_thresh_level_alt: "card_thresh_level w = max 1 (uint w - 30)"
  by (simp add: card_thresh_level_def CARD_THRESH_def Let_def max_def)

text \<open>
  Claim C6. The cutoff of the second binarization is the intensity of the sampled white
  pixel minus 30 when that difference is positive and exactly 1 otherwise; for every
  white level below 30 it is 1, and it is never below 1. The white pixel is the pixel in
  row 15, column 64 of the corner zoomed four times, and the re-binarized corner is that
  zoomed corner with every pixel above the cutoff set to 0 and every other pixel to 255.
\<close>

theorem card_thresh_level_floor:
  "card_thresh_level white_level =
     (if uint white_level - 30 \<le> 0 then 1 else uint white_level - 30) \<and>
   (uint white_level < 30 \<longrightarrow> card_thresh_level white_level = 1) \<and>
   1 \<le> card_thresh_level white_level \<and>
   (\<forall>qt. query_thresh cv warped = Inr qt \<longrightarrow>
      (\<exists>zoom white.
          cv2_resize cv (slice2 warped 0 84 0 32) (0, 0) 4 4 = Inr zoom \<and>
          getpix zoom 15 64 = Inr white \<and>
          qt = map (map (\<lambda>p. if max 1 (uint white - 30) < uint p then 0 else 255)) zoom))"
proof (intro conjI allI impI)
  show "card_thresh_level white_level =
     (if uint white_level - 30 \<le> 0 then 1 else uint white_level - 30)"
    by (simp add: card_thresh_level_def CARD_THRESH_def Let_def)
  show "card_thresh_level white_level = 1" if "uint white_level < 30"
    using that by (simp add: card_thresh_level_def CARD_THRESH_def Let_def)
  show "1 \<le> card_thresh_level white_level"
    by (simp add: card_thresh_level_def CARD_THRESH_def Let_def)
next
  fix qt assume q: "query_thresh cv warped = Inr qt"
  then obtain zoom where z: "cv2_resize cv (slice2 warped 0 84 0 32) (0, 0) 4 4 = Inr zoom"
    by (auto simp: query_thresh_def CORNER_HEIGHT_def CORNER_WIDTH_def split: sum.splits)
  with q obtain white where w: "getpix zoom 15 64 = Inr white"
    by (auto simp: query_thresh_def CORNER_HEIGHT_def CORNER_WIDTH_def split: sum.splits)
  from q z w have "qt = threshold zoom (card_thresh_level white) 255 THRESH_BINARY_INV"
    by (simp add: query_thresh_def CORNER_HEIGHT_def CORNER_WIDTH_def)
  then have "qt = map (map (\<lambda>p. if max 1 (uint white - 30) < uint p then 0 else 255)) zoom"
    by (simp add: threshold_def card_thresh_level_alt)
  with z w show "\<exists>zoom white.
          cv2_resize cv (slice2 warped 0 84 0 32) (0, 0) 4 4 = Inr zoom \<and>
          getpix zoom 15 64 = Inr white \<and>
          qt = map (map (\<lambda>p. if max 1 (uint white - 30) < uint p then 0 else 255)) zoom"
    by blast
qed

text \<open>The theorem at a dark card, white level 12: the cutoff is 1 and every pixel,
  being above it, turns black.\<close>

theorem card_thresh_level_floor_witness:
  "uint (12 :: pixel) < 30 \<and> card_thresh_level 12 = 1 \<and>
   query_thresh cv_stub dark_warp = Inr (replicate 336 (replicate 128 0)) \<and>
   (\<exists>zoom white.
      cv2_resize cv_stub (slice2 dark_warp 0 84 0 32) (0, 0) 4 4 = Inr zoom \<and>
      getpix zoom 15 64 = Inr white \<and>
      replicate 336 (replicate 128 (0 :: pixel)) =
        map (map (\<lambda>p. if max 1 (uint white - 30) < uint p then 0 else 255)) zoom)"
proof -
  have lt: "uint (12 :: pixel) < 30" by simp
  have sl: "slice2 dark_warp 0 84 0 32 = replicate 84 (replicate 32 12)"
    by (simp add: dark_warp_def slice2_replicate slice_bound_def)
  have zoom: "cv2_resize cv_stub (slice2 dark_warp 0 84 0 32) (0, 0) 4 4 =
      Inr (replicate 336 (replicate 128 12))"
    unfolding sl by (simp add: cv2_resize_def cv_stub_def stub_resize_def)
  have px: "getpix (replicate 336 (replicate 128 (12 :: pixel))) 15 64 = Inr 12"
    by (simp add: getpix_def)
  have lvl: "card_thresh_level 12 = 1"
    by (simp add: card_thresh_level_def CARD_THRESH_def)
  have run: "query_thresh cv_stub dark_warp = Inr (replicate 336 (replicate 128 0))"
    unfolding query_thresh_def CORNER_HEIGHT_def CORNER_WIDTH_def
    by (simp add: zoom px lvl threshold_def)
  note th = card_thresh_level_floor[of 12 cv_stub dark_warp]
  have one: "card_thresh_level 12 = 1"
    by (rule th[THEN conjunct2, THEN conjunct1, rule_format, OF lt])
  have ex: "\<exists>zoom white.
      cv2_resize cv_stub (slice2 dark_warp 0 84 0 32) (0, 0) 4 4 = Inr zoom \<and>
      getpix zoom 15 64 = Inr white \<and>
      replicate 336 (replicate 128 (0 :: pixel)) =
        map (map (\<lambda>p. if max 1 (uint white - 30) < uint p then 0 else 255)) zoom"
    by (rule th[THEN conjunct2, THEN conjunct2, THEN conjunct2, rule_format, OF run])
  show ?thesis
    by (intro conjI) (rule lt, rule one, rule run, rule ex)
qed

section \<open>Loading the train suits\<close>

lemma load_suits_loop_eq:
  "i = length ts \<Longrightarrow>
   load_suits_loop cv fp names ts i =
     ts @ map (\<lambda>s. \<lparr>img = imread cv (fp @ s @ ''.jpg''), name = s\<rparr>) names"
proof (induction names arbitrary: ts i)
  case Nil
  then show ?case by simp
next
  case (Cons s names)
  let ?t = "\<lparr>img = imread cv (fp @ s @ ''.jpg''), name = s\<rparr>"
  have step: "load_suits_loop cv fp (s # names) ts i =
      load_suits_loop cv fp names (ts @ [?t]) (i + 1)"
    using Cons.prems by (simp add: Let_def nth_append Train_suits_init_def)
  have "i + 1 = length (ts @ [?t])" using Cons.prems by simp
  from Cons.IH[OF this] step show ?case by simp
qed

lemma load_suits_eq:
  "load_suits cv fp =
     map (\<lambda>s. \<lparr>img = imread cv (fp @ s @ ''.jpg''), name = s\<rparr>)
       [''Spades'', ''Diamonds'', ''Clubs'', ''Hearts'']"
  by (simp add: load_suits_def load_suits_loop_eq del: load_suits_loop.simps)

lemma match_loop_bad_template:
  "\<exists>t\<in>set ts. \<not> same_shape (suit_img q) t \<Longrightarrow> snd (match_loop q ts v) = Inl Cv2Error"
proof (induction ts arbitrary: v)
  case Nil then show ?case by simp
next
  case (Cons t ts)
  show ?case
  proof (cases "same_shape (suit_img q) t")
    case False
    then have "absdiff (suit_img q) (img t) = Inl Cv2Error"
      by (auto simp: same_shape_def absdiff_def split: option.splits)
    then show ?thesis by simp
  next
    case True
    with Cons.prems have "\<exists>t\<in>set ts. \<not> same_shape (suit_img q) t" by simp
    from Cons.IH[OF this] absdiff_same_shape[OF True] show ?thesis
      by (auto simp: Let_def split: sum.splits)
  qed
qed

lemma match_card_bad_template:
  assumes "suit_img q \<noteq> []" "\<exists>t\<in>set ts. \<not> same_shape (suit_img q) t"
  shows "snd (match_card q ts) = Inl Cv2Error"
proof -
  let ?v0 = "\<lparr>best_suit_match_diff = 10000, best_suit_name = None, best_suit_diff_img = None\<rparr>"
  from match_loop_bad_template[OF assms(2), of ?v0]
  obtain q' where "match_loop q ts ?v0 = (q', Inl Cv2Error)"
    by (cases "match_loop q ts ?v0") auto
  with assms(1) show ?thesis by (simp add: match_card_def)
qed

text \<open>
  Claim C5, as amended. \<^verbatim>\<open>load_suits\<close> never raises and checks nothing: it always
  returns four entries, named Spades, Diamonds, Clubs and Hearts in this order, each
  holding whatever \<^verbatim>\<open>cv2.imread\<close> returned for its file, which is \<^verbatim>\<open>None\<close> for
  a file that cannot be read. A missing template surfaces only in \<^verbatim>\<open>match_card\<close>:
  with a non-empty glyph the call raises an OpenCV error, and with an empty glyph it
  returns \<open>''Unknown''\<close> with score 10000 without looking at the templates.
\<close>

theorem load_suits_no_check:
  "length (load_suits cv path) = 4 \<and>
   map name (load_suits cv path) = [''Spades'', ''Diamonds'', ''Clubs'', ''Hearts''] \<and>
   map img (load_suits cv path) =
     map (\<lambda>s. imread cv (path @ s @ ''.jpg'')) [''Spades'', ''Diamonds'', ''Clubs'', ''Hearts''] \<and>
   (suit_img q = [] \<longrightarrow>
      snd (match_card q (load_suits cv path)) = Inr (''Unknown'', 10000)) \<and>
   (suit_img q \<noteq> [] \<and> list_ex (\<lambda>t. img t = None) (load_suits cv path) \<longrightarrow>
      snd (match_card q (load_suits cv path)) = Inl Cv2Error)"
proof (intro conjI impI)
  show "length (load_suits cv path) = 4" by (simp add: load_suits_eq)
  show "map name (load_suits cv path) = [''Spades'', ''Diamonds'', ''Clubs'', ''Hearts'']"
    by (simp add: load_suits_eq)
  show "map img (load_suits cv path) =
     map (\<lambda>s. imread cv (path @ s @ ''.jpg'')) [''Spades'', ''Diamonds'', ''Clubs'', ''Hearts'']"
    by (simp add: load_suits_eq)
next
  assume "suit_img q = []"
  then show "snd (match_card q (load_suits cv path)) = Inr (''Unknown'', 10000)"
    by (simp add: match_card_empty)
next
  assume a: "suit_img q \<noteq> [] \<and> list_ex (\<lambda>t. img t = None) (load_suits cv path)"
  then obtain t where t: "t \<in> set (load_suits cv path)" "img t = None"
    by (auto simp: list_ex_iff)
  then have "\<not> same_shape (suit_img q) t" by (simp add: same_shape_def)
  with t have "\<exists>t\<in>set (load_suits cv path). \<not> same_shape (suit_img q) t" by blast
  with a show "snd (match_card q (load_suits cv path)) = Inl Cv2Error"
    by (intro match_card_bad_template) simp_all
qed

lemma load_hearts_missing:
  "load_suits cv_hearts_missing ''Card_Imgs/'' =
     [\<lparr>img = Some (glyph_with 255 0), name = ''Spades''\<rparr>,
      \<lparr>img = Some (glyph_with 255 0), name = ''Diamonds''\<rparr>,
      \<lparr>img = Some (glyph_with 255 0), name = ''Clubs''\<rparr>,
      \<lparr>img = None, name = ''Hearts''\<rparr>]"
  by (simp add: load_suits_eq cv_hearts_missing_def cv_stub_def hearts_missing_def)

text \<open>
  The theorem where the Hearts file is missing: matching a card with a glyph raises.
\<close>

theorem load_suits_no_check_witness:
  "suit_img (card_with (glyph_with 255 0)) \<noteq> [] \<and>
   list_ex (\<lambda>t. img t = None) (load_suits cv_hearts_missing ''Card_Imgs/'') \<and>
   snd (match_card (card_with (glyph_with 255 0)) (load_suits cv_hearts_missing ''Card_Imgs/''))
     = Inl Cv2Error"
proof -
  let ?q = "card_with (glyph_with 255 0)"
  have ne: "suit_img ?q \<noteq> []" by (simp add: card_with_def glyph_with_nonempty)
  have ex: "list_ex (\<lambda>t. img t = None) (load_suits cv_hearts_missing ''Card_Imgs/'')"
    by (simp add: load_hearts_missing)
  note th = load_suits_no_check[of cv_hearts_missing "''Card_Imgs/''" ?q]
  have "snd (match_card ?q (load_suits cv_hearts_missing ''Card_Imgs/'')) = Inl Cv2Error"
    by (rule th[THEN conjunct2, THEN conjunct2, THEN conjunct2, THEN conjunct2, rule_format])
       (simp add: ne ex)
  with ne ex show ?thesis by (intro conjI)
qed

text \<open>
  The claim as stated fails: with the Hearts file missing the loader returns its
  four entries, Hearts without an image, and matching a card without a glyph against
  this partial set returns \<open>''Unknown''\<close> and raises nothing.
\<close>

theorem load_suits_silent_counterexample:
  "load_suits cv_hearts_missing ''Card_Imgs/'' =
     [\<lparr>img = Some (glyph_with 255 0), name = ''Spades''\<rparr>,
      \<lparr>img = Some (glyph_with 255 0), name = ''Diamonds''\<rparr>,
      \<lparr>img = Some (glyph_with 255 0), name = ''Clubs''\<rparr>,
      \<lparr>img = None, name = ''Hearts''\<rparr>] \<and>
   match_card (card_with []) (load_suits cv_hearts_missing ''Card_Imgs/'') =
     (card_with [], Inr (''Unknown'', 10000))"
  by (simp add: load_hearts_missing match_card_empty card_with_def)

section \<open>find_cards\<close>

lemma fill_sorted_ok:
  "\<forall>i\<in>set idx. i < length cnts \<and> i < length hier \<Longrightarrow>
   fill_sorted cnts hier idx (cs, hs) = Inr (cs @ map (nth cnts) idx, hs @ map (nth hier) idx)"
  by (induction idx arbitrary: cs hs) auto

lemma mark_cards_length: "length (mark_cards cv cs hs is flags) = length flags"
  by (induction "is" arbitrary: flags) (auto simp: Let_def)

lemma mark_cards_Cons:
  "mark_cards cv cs hs (i # is) flags =
     mark_cards cv cs hs is (if card_flag cv (cs ! i) (hs ! i) = 1 then flags[i := 1] else flags)"
  by (simp add: Let_def card_flag_def CARD_MAX_AREA_def CARD_MIN_AREA_def)

lemma mark_cards_nth:
  "distinct is \<Longrightarrow> k < length flags \<Longrightarrow>
   mark_cards cv cs hs is flags ! k =
     (if k \<in> set is \<and> card_flag cv (cs ! k) (hs ! k) = 1 then 1 else flags ! k)"
proof (induction "is" arbitrary: flags)
  case Nil
  then show ?case by simp
next
  case (Cons i "is")
  let ?f = "if card_flag cv (cs ! i) (hs ! i) = 1 then flags[i := 1] else flags"
  have d: "distinct is" "i \<notin> set is" using Cons.prems(1) by simp_all
  have len: "k < length ?f" using Cons.prems(2) by simp
  have "mark_cards cv cs hs (i # is) flags ! k = mark_cards cv cs hs is ?f ! k"
    by (simp only: mark_cards_Cons)
  also have "\<dots> = (if k \<in> set is \<and> card_flag cv (cs ! k) (hs ! k) = 1 then 1 else ?f ! k)"
    by (rule Cons.IH[OF d(1) len])
  also have "\<dots> = (if k \<in> set (i # is) \<and> card_flag cv (cs ! k) (hs ! k) = 1 then 1
                     else flags ! k)"
    using d(2) Cons.prems(2) by (cases "i = k") (auto simp: nth_list_update)
  finally show ?case .
qed

lemma find_cards_char:
  assumes fc: "findContours cv thresh_image = (cnts, hier)" and len: "length cnts \<le> length hier"
  shows "find_cards cv thresh_image =
     Inr (map (nth cnts) (sort_key (\<lambda>i. - contourArea cv (cnts ! i)) [0..<length cnts]),
          map (\<lambda>i. card_flag cv (cnts ! i) (hier ! i))
            (sort_key (\<lambda>i. - contourArea cv (cnts ! i)) [0..<length cnts]))"
proof (cases "cnts = []")
  case True
  with fc show ?thesis by (simp add: find_cards_def)
next
  case False
  let ?idx = "sort_key (\<lambda>i. - contourArea cv (cnts ! i)) [0..<length cnts]"
  have in_range: "\<forall>i\<in>set ?idx. i < length cnts \<and> i < length hier" using len by simp
  have fill: "fill_sorted cnts hier ?idx ([], []) = Inr (map (nth cnts) ?idx, map (nth hier) ?idx)"
    using fill_sorted_ok[OF in_range, of "[]" "[]"] by simp
  let ?cs = "map (nth cnts) ?idx" and ?hs = "map (nth hier) ?idx"
  let ?fs = "mark_cards cv ?cs ?hs [0..<length ?cs] (replicate (length cnts) 0)"
  have run: "find_cards cv thresh_image = Inr (?cs, ?fs)"
    using fc False fill by (simp add: find_cards_def Let_def)
  have "?fs = map (\<lambda>i. card_flag cv (cnts ! i) (hier ! i)) ?idx"
  proof (rule nth_equalityI)
    show "length ?fs = length (map (\<lambda>i. card_flag cv (cnts ! i) (hier ! i)) ?idx)"
      by (simp add: mark_cards_length)
  next
    fix k assume "k < length ?fs"
    then have k: "k < length cnts" by (simp add: mark_cards_length)
    then have "?fs ! k = (if card_flag cv (?cs ! k) (?hs ! k) = 1 then 1 else 0)"
      by (subst mark_cards_nth) simp_all
    also have "\<dots> = card_flag cv (?cs ! k) (?hs ! k)" by (simp add: card_flag_def)
    finally show "?fs ! k = map (\<lambda>i. card_flag cv (cnts ! i) (hier ! i)) ?idx ! k"
      using k by simp
  qed
  with run show ?thesis by simp
qed

lemma stub_findContours_frame_mask:
  "findContours cv_stub frame_mask = (map fst stub_contours, map snd stub_contours)"
  by (simp add: cv_stub_def stub_findContours_def stub_contours_def rect_inside_def
        stub_boundingRect_def shape2_def frame_mask_def Let_def)

lemma find_cards_stub_mask:
  "find_cards cv_stub frame_mask =
     Inr (map (nth (map fst stub_contours)) [2, 0, 1, 3], [0, 1, 0, 0])"
proof -
  let ?cnts = "map fst stub_contours" and ?hier = "map snd stub_contours"
  have fc: "findContours cv_stub frame_mask = (?cnts, ?hier)"
    by (rule stub_findContours_frame_mask)
  have len: "length ?cnts \<le> length ?hier" by simp
  have upt4: "[0..<length ?cnts] = [0, 1, 2, 3]"
    by (simp add: stub_contours_def upt_conv_Cons)
  have sorted_idx: "sort_key (\<lambda>i. - contourArea cv_stub (?cnts ! i)) [0..<length ?cnts] = [2, 0, 1, 3]"
    unfolding upt4
    by (simp add: cv_stub_def stub_contourArea_def stub_contours_def)
  show ?thesis
    unfolding find_cards_char[OF fc len] sorted_idx
    by (simp add: card_flag_def cv_stub_def stub_contourArea_def stub_arcLength_def
          stub_contours_def parent_def)
qed



text \<open>
  Claim C2. The contours returned are the contours found, reordered by an index
  permutation, and the flag at each position is 1 if and only if that contour's area
  is strictly between 25000 and 120000, its hierarchy row has no parent, and its
  polygon approximation with tolerance 1% of its perimeter has exactly 4 vertices;
  every flag is 0 or 1, and a contour whose area is outside the open interval has
  flag 0 whatever its vertex count.
\<close>

theorem find_cards_flags:
  assumes "findContours cv thresh_image = (cnts, hier)"
    and "length cnts \<le> length hier"
    and "find_cards cv thresh_image = Inr (cs, fs)"
  shows "\<exists>idx. distinct idx \<and> set idx = {0..<length cnts} \<and> length fs = length idx \<and>
           cs = map (nth cnts) idx \<and>
           (\<forall>k<length idx.
              (fs ! k = 1 \<longleftrightarrow>
                 25000 < contourArea cv (cs ! k) \<and> contourArea cv (cs ! k) < 120000 \<and>
                 parent (hier ! (idx ! k)) = - 1 \<and>
                 length (approxPolyDP cv (cs ! k) (0.01 * arcLength cv (cs ! k))) = 4) \<and>
              (fs ! k = 0 \<or> fs ! k = 1) \<and>
              (contourArea cv (cs ! k) \<le> 25000 \<or> 120000 \<le> contourArea cv (cs ! k)
                 \<longrightarrow> fs ! k = 0))"
proof -
  let ?idx = "sort_key (\<lambda>i. - contourArea cv (cnts ! i)) [0..<length cnts]"
  from find_cards_char[OF assms(1,2)] assms(3)
  have cs: "cs = map (nth cnts) ?idx"
    and fs: "fs = map (\<lambda>i. card_flag cv (cnts ! i) (hier ! i)) ?idx" by simp_all
  have "distinct ?idx" "set ?idx = {0..<length cnts}" by simp_all
  moreover have "length fs = length ?idx" using fs by simp
  moreover have "\<forall>k<length ?idx.
              (fs ! k = 1 \<longleftrightarrow>
                 25000 < contourArea cv (cs ! k) \<and> contourArea cv (cs ! k) < 120000 \<and>
                 parent (hier ! (?idx ! k)) = - 1 \<and>
                 length (approxPolyDP cv (cs ! k) (0.01 * arcLength cv (cs ! k))) = 4) \<and>
              (fs ! k = 0 \<or> fs ! k = 1) \<and>
              (contourArea cv (cs ! k) \<le> 25000 \<or> 120000 \<le> contourArea cv (cs ! k)
                 \<longrightarrow> fs ! k = 0)"
    unfolding cs fs by (auto simp: card_flag_def)
  ultimately show ?thesis using cs by blast
qed

text \<open>The theorem at the same mask: the card-sized rectangle without parent is
  flagged, the rectangle nested in it, the oversized and the undersized one are not.\<close>

theorem find_cards_flags_witness:
  "findContours cv_stub frame_mask = (map fst stub_contours, map snd stub_contours) \<and>
   find_cards cv_stub frame_mask =
     Inr (map (nth (map fst stub_contours)) [2, 0, 1, 3], [0, 1, 0, 0]) \<and>
   (\<exists>idx. distinct idx \<and> set idx = {0..<4} \<and>
      map (nth (map fst stub_contours)) [2, 0, 1, 3] = map (nth (map fst stub_contours)) idx \<and>
      ([0, 1, 0, 0 :: int] ! 1 = 1 \<longleftrightarrow>
           25000 < contourArea cv_stub (map fst stub_contours ! 0) \<and>
           contourArea cv_stub (map fst stub_contours ! 0) < 120000 \<and>
           parent (map snd stub_contours ! (idx ! 1)) = - 1 \<and>
           length (approxPolyDP cv_stub (map fst stub_contours ! 0)
                     (0.01 * arcLength cv_stub (map fst stub_contours ! 0))) = 4))"
proof -
  let ?cnts = "map fst stub_contours" and ?hier = "map snd stub_contours"
  let ?cs = "map (nth ?cnts) [2, 0, 1, 3]" and ?fs = "[0, 1, 0, 0 :: int]"
  have fc: "findContours cv_stub frame_mask = (?cnts, ?hier)"
    by (rule stub_findContours_frame_mask)
  have len: "length ?cnts \<le> length ?hier" by simp
  have run: "find_cards cv_stub frame_mask = Inr (?cs, ?fs)"
    by (rule find_cards_stub_mask)
  from find_cards_flags[OF fc len run] obtain idx where
    idx: "distinct idx" "set idx = {0..<length ?cnts}" "length ?fs = length idx"
     "?cs = map (nth ?cnts) idx"
     "\<forall>k<length idx.
              (?fs ! k = 1 \<longleftrightarrow>
                 25000 < contourArea cv_stub (?cs ! k) \<and> contourArea cv_stub (?cs ! k) < 120000 \<and>
                 parent (?hier ! (idx ! k)) = - 1 \<and>
                 length (approxPolyDP cv_stub (?cs ! k) (0.01 * arcLength cv_stub (?cs ! k))) = 4)"
    by blast
  from idx(3) have "1 < length idx" by simp
  with idx(5) have one: "?fs ! 1 = 1 \<longleftrightarrow>
                 25000 < contourArea cv_stub (?cs ! 1) \<and> contourArea cv_stub (?cs ! 1) < 120000 \<and>
                 parent (?hier ! (idx ! 1)) = - 1 \<and>
                 length (approxPolyDP cv_stub (?cs ! 1) (0.01 * arcLength cv_stub (?cs ! 1))) = 4"
    by blast
  have "?cs ! 1 = ?cnts ! 0" by simp
  with one have one': "?fs ! 1 = 1 \<longleftrightarrow>
                 25000 < contourArea cv_stub (?cnts ! 0) \<and> contourArea cv_stub (?cnts ! 0) < 120000 \<and>
                 parent (?hier ! (idx ! 1)) = - 1 \<and>
                 length (approxPolyDP cv_stub (?cnts ! 0) (0.01 * arcLength cv_stub (?cnts ! 0))) = 4"
    by simp
  have "length ?cnts = 4" by (simp add: stub_contours_def)
  with idx(2) have "set idx = {0..<4}" by (simp only:)
  with fc run idx(1,4) one' show ?thesis by blast
qed

section \<open>The corner roles of flattener\<close>

lemma np_argmin_first: "xs \<noteq> [] \<Longrightarrow> np_argmin xs = Inr (first_min xs)"
  by (cases xs) (simp_all add: np_argmin_def first_min_def)

lemma np_argmax_first: "xs \<noteq> [] \<Longrightarrow> np_argmax xs = Inr (first_max xs)"
  by (cases xs) (simp_all add: np_argmax_def first_max_def)

lemma argmin_from_inv:
  assumes "i \<le> length ys" "b < i" "bv = ys ! b"
    "\<forall>j<i. bv \<le> ys ! j" "\<forall>j<b. bv < ys ! j"
  shows "argmin_from (drop i ys) i b bv < length ys \<and>
         (\<forall>j<length ys. ys ! argmin_from (drop i ys) i b bv \<le> ys ! j) \<and>
         (\<forall>j<argmin_from (drop i ys) i b bv. ys ! argmin_from (drop i ys) i b bv < ys ! j)"
  using assms
proof (induction "length ys - i" arbitrary: i b bv)
  case 0
  then have "drop i ys = []" "i = length ys" by simp_all
  with 0 show ?case by simp
next
  case (Suc n)
  then have lt: "i < length ys" by simp
  then have dr: "drop i ys = ys ! i # drop (Suc i) ys" by (simp add: Cons_nth_drop_Suc)
  show ?case
  proof (cases "ys ! i < bv")
    case True
    have "argmin_from (drop (Suc i) ys) (Suc i) i (ys ! i) < length ys \<and>
         (\<forall>j<length ys. ys ! argmin_from (drop (Suc i) ys) (Suc i) i (ys ! i) \<le> ys ! j) \<and>
         (\<forall>j<argmin_from (drop (Suc i) ys) (Suc i) i (ys ! i).
             ys ! argmin_from (drop (Suc i) ys) (Suc i) i (ys ! i) < ys ! j)"
    proof (rule Suc.hyps(1))
      show "n = length ys - Suc i" using Suc.hyps(2) by simp
      show "Suc i \<le> length ys" using lt by simp
      show "i < Suc i" by simp
      show "ys ! i = ys ! i" by simp
      show "\<forall>j<Suc i. ys ! i \<le> ys ! j"
        using Suc.prems(4) True by (auto simp: less_Suc_eq)
      show "\<forall>j<i. ys ! i < ys ! j"
        using Suc.prems(4) True by auto
    qed
    with True show ?thesis by (simp add: dr)
  next
    case False
    have "argmin_from (drop (Suc i) ys) (Suc i) b bv < length ys \<and>
         (\<forall>j<length ys. ys ! argmin_from (drop (Suc i) ys) (Suc i) b bv \<le> ys ! j) \<and>
         (\<forall>j<argmin_from (drop (Suc i) ys) (Suc i) b bv.
             ys ! argmin_from (drop (Suc i) ys) (Suc i) b bv < ys ! j)"
    proof (rule Suc.hyps(1))
      show "n = length ys - Suc i" using Suc.hyps(2) by simp
      show "Suc i \<le> length ys" using lt by simp
      show "b < Suc i" using Suc.prems(2) by simp
      show "bv = ys ! b" by (rule Suc.prems(3))
      show "\<forall>j<Suc i. bv \<le> ys ! j"
        using Suc.prems(4) False by (auto simp: less_Suc_eq)
      show "\<forall>j<b. bv < ys ! j" by (rule Suc.prems(5))
    qed
    with False show ?thesis by (simp add: dr)
  qed
qed

lemma first_min_props:
  assumes "xs \<noteq> []"
  shows "first_min xs < length xs" "\<And>j. j < length xs \<Longrightarrow> xs ! first_min xs \<le> xs ! j"
    "\<And>j. j < first_min xs \<Longrightarrow> xs ! first_min xs < xs ! j"
proof -
  have "argmin_from (drop 1 xs) 1 0 (xs ! 0) < length xs \<and>
         (\<forall>j<length xs. xs ! argmin_from (drop 1 xs) 1 0 (xs ! 0) \<le> xs ! j) \<and>
         (\<forall>j<argmin_from (drop 1 xs) 1 0 (xs ! 0). xs ! argmin_from (drop 1 xs) 1 0 (xs ! 0) < xs ! j)"
    using assms by (intro argmin_from_inv) (simp_all add: Suc_le_eq)
  moreover have "first_min xs = argmin_from (drop 1 xs) 1 0 (xs ! 0)"
    using assms by (cases xs) (simp_all add: first_min_def)
  ultimately show "first_min xs < length xs"
    "\<And>j. j < length xs \<Longrightarrow> xs ! first_min xs \<le> xs ! j"
    "\<And>j. j < first_min xs \<Longrightarrow> xs ! first_min xs < xs ! j"
    by simp_all
qed

lemma argmax_as_argmin:
  "argmax_from xs i b bv = argmin_from (map uminus xs) i b (- bv)"
  by (induction xs arbitrary: i b bv) auto

lemma first_max_as_min: "xs \<noteq> [] \<Longrightarrow> first_max xs = first_min (map uminus xs)"
  by (cases xs) (simp_all add: first_max_def first_min_def argmax_as_argmin)



lemma first_max_props:
  assumes "xs \<noteq> []"
  shows "first_max xs < length xs" "\<And>j. j < length xs \<Longrightarrow> xs ! j \<le> xs ! first_max xs"
  using first_min_props(1,2)[of "map uminus xs"] assms
  by (simp_all add: first_max_as_min)









lemma temp_rect_axis:
  assumes "pts \<noteq> []"
    and "real_of_int w \<le> 0.8 * real_of_int h \<or> real_of_int w \<ge> 1.2 * real_of_int h"
  shows "temp_rect pts w h =
     Inr (if real_of_int w \<ge> 1.2 * real_of_int h
          then [pts ! first_max (map coord_diff pts), pts ! first_min (map coord_sum pts),
                pts ! first_min (map coord_diff pts), pts ! first_max (map coord_sum pts)]
          else [pts ! first_min (map coord_sum pts), pts ! first_min (map coord_diff pts),
                pts ! first_max (map coord_sum pts), pts ! first_max (map coord_diff pts)])"
proof -
  have s: "(\<lambda>(x, y). x + y) = coord_sum" "(\<lambda>(x, y). y - x) = coord_diff"
    by (auto simp: coord_sum_def coord_diff_def fun_eq_iff)
  from assms show ?thesis
    unfolding temp_rect_def s
    by (auto simp: np_argmin_first np_argmax_first Let_def)
qed

lemma rot_sums:
  "coord_sum (rot90 c p) = 2 * snd c - coord_diff p"
  "coord_diff (rot90 c p) = coord_sum p - 2 * fst c"
  "coord_sum (rot180 c p) = (2 * fst c + 2 * snd c) - coord_sum p"
  "coord_diff (rot180 c p) = (2 * snd c - 2 * fst c) - coord_diff p"
  "coord_sum (rot270 c p) = coord_diff p + 2 * fst c"
  "coord_diff (rot270 c p) = 2 * snd c - coord_sum p"
  by (simp_all add: coord_sum_def coord_diff_def rot90_def rot180_def rot270_def)





lemma role_bounds:
  assumes "pts \<noteq> []"
  shows "first_min (map f pts) < length pts" "first_max (map f pts) < length pts"
  using first_min_props(1)[of "map f pts"] first_max_props(1)[of "map f pts"] assms by simp_all



text \<open>
  Claim C3, as amended. For every non-empty corner list there are four of its points,
  \<open>tl\<close> of minimal \<open>x + y\<close>, \<open>br\<close> of maximal \<open>x + y\<close>, \<open>tr\<close> of maximal
  \<open>x - y\<close> (minimal \<open>y - x\<close>) and \<open>bl\<close> of minimal \<open>x - y\<close> (maximal
  \<open>y - x\<close>), such that the source quadrilateral is \<open>[tl, tr, br, bl]\<close> when the
  bounding box is portrait (\<open>w \<le> 0.8 h\<close>, and not landscape) and \<open>[bl, tl, tr, br]\<close>
  when it is landscape (\<open>w \<ge> 1.2 h\<close>).
\<close>

theorem temp_rect_roles:
  assumes "pts \<noteq> []"
  shows "\<exists>tl tr br bl.
     tl \<in> set pts \<and> tr \<in> set pts \<and> br \<in> set pts \<and> bl \<in> set pts \<and>
     (\<forall>p\<in>set pts. fst tl + snd tl \<le> fst p + snd p) \<and>
     (\<forall>p\<in>set pts. fst p + snd p \<le> fst br + snd br) \<and>
     (\<forall>p\<in>set pts. fst p - snd p \<le> fst tr - snd tr) \<and>
     (\<forall>p\<in>set pts. fst bl - snd bl \<le> fst p - snd p) \<and>
     (real_of_int w \<le> 0.8 * real_of_int h \<and> \<not> real_of_int w \<ge> 1.2 * real_of_int h \<longrightarrow>
        temp_rect pts w h = Inr [tl, tr, br, bl]) \<and>
     (real_of_int w \<ge> 1.2 * real_of_int h \<longrightarrow> temp_rect pts w h = Inr [bl, tl, tr, br])"
proof -
  let ?s = "map coord_sum pts" and ?d = "map coord_diff pts"
  let ?tl = "pts ! first_min ?s" and ?br = "pts ! first_max ?s"
  let ?tr = "pts ! first_min ?d" and ?bl = "pts ! first_max ?d"
  have ne: "?s \<noteq> []" "?d \<noteq> []" using assms by simp_all
  have mem: "?tl \<in> set pts" "?tr \<in> set pts" "?br \<in> set pts" "?bl \<in> set pts"
    using role_bounds[OF assms] by simp_all
  have tl: "\<forall>p\<in>set pts. fst ?tl + snd ?tl \<le> fst p + snd p"
  proof
    fix p assume "p \<in> set pts"
    then obtain j where j: "j < length pts" "pts ! j = p" by (auto simp: in_set_conv_nth)
    from first_min_props(2)[OF ne(1), of j] j role_bounds(1)[OF assms, of coord_sum]
    show "fst ?tl + snd ?tl \<le> fst p + snd p" by (simp add: coord_sum_def)
  qed
  have br: "\<forall>p\<in>set pts. fst p + snd p \<le> fst ?br + snd ?br"
  proof
    fix p assume "p \<in> set pts"
    then obtain j where j: "j < length pts" "pts ! j = p" by (auto simp: in_set_conv_nth)
    from first_max_props(2)[OF ne(1), of j] j role_bounds(2)[OF assms, of coord_sum]
    show "fst p + snd p \<le> fst ?br + snd ?br" by (simp add: coord_sum_def)
  qed
  have tr: "\<forall>p\<in>set pts. fst p - snd p \<le> fst ?tr - snd ?tr"
  proof
    fix p assume "p \<in> set pts"
    then obtain j where j: "j < length pts" "pts ! j = p" by (auto simp: in_set_conv_nth)
    from first_min_props(2)[OF ne(2), of j] j role_bounds(1)[OF assms, of coord_diff]
    show "fst p - snd p \<le> fst ?tr - snd ?tr" by (simp add: coord_diff_def)
  qed
  have bl: "\<forall>p\<in>set pts. fst ?bl - snd ?bl \<le> fst p - snd p"
  proof
    fix p assume "p \<in> set pts"
    then obtain j where j: "j < length pts" "pts ! j = p" by (auto simp: in_set_conv_nth)
    from first_max_props(2)[OF ne(2), of j] j role_bounds(2)[OF assms, of coord_diff]
    show "fst ?bl - snd ?bl \<le> fst p - snd p" by (simp add: coord_diff_def)
  qed
  have p: "real_of_int w \<le> 0.8 * real_of_int h \<and> \<not> real_of_int w \<ge> 1.2 * real_of_int h \<longrightarrow>
        temp_rect pts w h = Inr [?tl, ?tr, ?br, ?bl]"
    using temp_rect_axis[OF assms, of w h] by auto
  have l: "real_of_int w \<ge> 1.2 * real_of_int h \<longrightarrow> temp_rect pts w h = Inr [?bl, ?tl, ?tr, ?br]"
    using temp_rect_axis[OF assms, of w h] by auto
  from mem tl br tr bl p l show ?thesis by blast
qed

lemmas temp_rect_eval =
  temp_rect_def np_argmin_def np_argmax_def Let_def

text \<open>
  The theorem at an upright card of 200 by 300 pixels.
\<close>

theorem temp_rect_roles_witness:
  "card_corners \<noteq> [] \<and> real_of_int 201 \<le> 0.8 * real_of_int 301 \<and>
   \<not> real_of_int 201 \<ge> 1.2 * real_of_int 301 \<and>
   (\<exists>tl tr br bl.
      temp_rect card_corners 201 301 = Inr [tl, tr, br, bl] \<and>
      list_all (\<lambda>p. fst tl + snd tl \<le> fst p + snd p) card_corners \<and>
      list_all (\<lambda>p. fst p + snd p \<le> fst br + snd br) card_corners \<and>
      list_all (\<lambda>p. fst p - snd p \<le> fst tr - snd tr) card_corners \<and>
      list_all (\<lambda>p. fst bl - snd bl \<le> fst p - snd p) card_corners)"
proof -
  have ne: "card_corners \<noteq> []" by (simp add: card_corners_def)
  have p: "real_of_int 201 \<le> 0.8 * real_of_int 301" by simp
  have nl: "\<not> real_of_int 201 \<ge> 1.2 * real_of_int 301" by simp
  from temp_rect_roles[OF ne, of 201 301] obtain tl tr br bl where
    r: "\<forall>p\<in>set card_corners. fst tl + snd tl \<le> fst p + snd p"
       "\<forall>p\<in>set card_corners. fst p + snd p \<le> fst br + snd br"
       "\<forall>p\<in>set card_corners. fst p - snd p \<le> fst tr - snd tr"
       "\<forall>p\<in>set card_corners. fst bl - snd bl \<le> fst p - snd p"
       "real_of_int 201 \<le> 0.8 * real_of_int 301 \<and> \<not> real_of_int 201 \<ge> 1.2 * real_of_int 301 \<longrightarrow>
          temp_rect card_corners 201 301 = Inr [tl, tr, br, bl]"
    by blast
  from r(5) p nl have "temp_rect card_corners 201 301 = Inr [tl, tr, br, bl]" by blast
  with r(1-4) have "\<exists>tl tr br bl.
      temp_rect card_corners 201 301 = Inr [tl, tr, br, bl] \<and>
      list_all (\<lambda>p. fst tl + snd tl \<le> fst p + snd p) card_corners \<and>
      list_all (\<lambda>p. fst p + snd p \<le> fst br + snd br) card_corners \<and>
      list_all (\<lambda>p. fst p - snd p \<le> fst tr - snd tr) card_corners \<and>
      list_all (\<lambda>p. fst bl - snd bl \<le> fst p - snd p) card_corners"
    unfolding list_all_iff by blast
  with ne p nl show ?thesis by (intro conjI)
qed

text \<open>
  The claim as stated fails at the same card: the top-right role, the second entry
  of the portrait quadrilateral, goes to (300, 100), the point of maximal \<open>x - y\<close> and
  not of minimal \<open>x - y\<close>; the point of minimal \<open>x - y\<close> is (100, 400), the
  bottom-left corner.
\<close>

theorem temp_rect_roles_counterexample:
  "temp_rect card_corners 201 301 = Inr [(100, 100), (300, 100), (300, 400), (100, 400)] \<and>
   real_of_int 201 \<le> 0.8 * real_of_int 301 \<and>
   list_all (\<lambda>p. fst p - snd p \<le> 300 - 100) card_corners \<and>
   \<not> list_all (\<lambda>p. 300 - 100 \<le> fst p - snd p) card_corners \<and>
   list_all (\<lambda>p. 100 - 400 \<le> fst p - snd p) card_corners \<and>
   \<not> list_all (\<lambda>p. fst p - snd p \<le> 100 - 400) card_corners"
  by (simp add: card_corners_def temp_rect_eval)

section \<open>Turning the card\<close>










lemma pick_perm:
  assumes s: "set ys = set xs" and ne: "xs \<noteq> []" and inj: "inj_on f (set xs)"
  shows "ys ! first_min (map f ys) = xs ! first_min (map f xs)"
    "ys ! first_max (map f ys) = xs ! first_max (map f xs)"
proof -
  have ney: "ys \<noteq> []" using s ne by auto
  have le: "f (zs ! first_min (map f zs)) \<le> f z" "f z \<le> f (zs ! first_max (map f zs))"
    if "zs \<noteq> []" "z \<in> set zs" for zs z
  proof -
    from that obtain j where j: "j < length zs" "zs ! j = z" by (auto simp: in_set_conv_nth)
    have n: "map f zs \<noteq> []" using that by simp
    from first_min_props(2)[OF n, of j] j role_bounds(1)[OF that(1), of f]
    show "f (zs ! first_min (map f zs)) \<le> f z" by simp
    from first_max_props(2)[OF n, of j] j role_bounds(2)[OF that(1), of f]
    show "f z \<le> f (zs ! first_max (map f zs))" by simp
  qed
  have mem: "zs ! first_min (map f zs) \<in> set zs" "zs ! first_max (map f zs) \<in> set zs"
    if "zs \<noteq> []" for zs
    using role_bounds[OF that, of f] by simp_all
  let ?a = "ys ! first_min (map f ys)" and ?b = "xs ! first_min (map f xs)"
  have "f ?a \<le> f ?b" using le(1)[OF ney, of ?b] mem(1)[OF ne] s by simp
  moreover have "f ?b \<le> f ?a" using le(1)[OF ne, of ?a] mem(1)[OF ney] s by simp
  ultimately have "f ?a = f ?b" by simp
  with inj mem(1)[OF ne] mem(1)[OF ney] s show "?a = ?b" by (auto dest: inj_onD)
  let ?a = "ys ! first_max (map f ys)" and ?b = "xs ! first_max (map f xs)"
  have "f ?b \<le> f ?a" using le(2)[OF ney, of ?b] mem(2)[OF ne] s by simp
  moreover have "f ?a \<le> f ?b" using le(2)[OF ne, of ?a] mem(2)[OF ney] s by simp
  ultimately have "f ?a = f ?b" by simp
  with inj mem(2)[OF ne] mem(2)[OF ney] s show "?a = ?b" by (auto dest: inj_onD)
qed

lemma temp_rect_restart:
  assumes ne: "pts \<noteq> []"
    and inj: "inj_on coord_sum (set pts)" "inj_on coord_diff (set pts)"
    and ax: "real_of_int w \<le> 0.8 * real_of_int h \<or> real_of_int w \<ge> 1.2 * real_of_int h"
  shows "temp_rect (rotate n pts) w h = temp_rect pts w h"
proof -
  have ne': "rotate n pts \<noteq> []" using ne by simp
  have s: "set (rotate n pts) = set pts" by simp
  show ?thesis
    unfolding temp_rect_axis[OF ne' ax] temp_rect_axis[OF ne ax]
    by (simp only: pick_perm[OF s ne inj(1)] pick_perm[OF s ne inj(2)])
qed

lemma inj_on_turned:
  assumes "inj_on coord_sum (set pts)" "inj_on coord_diff (set pts)"
  shows "inj_on coord_sum (set (map (rot90 c) pts))" "inj_on coord_diff (set (map (rot90 c) pts))"
    "inj_on coord_sum (set (map (rot180 c) pts))" "inj_on coord_diff (set (map (rot180 c) pts))"
    "inj_on coord_sum (set (map (rot270 c) pts))" "inj_on coord_diff (set (map (rot270 c) pts))"
  using assms by (auto simp: inj_on_def rot_sums)


lemma temp_rect_restart_turned:
  assumes ne: "pts \<noteq> []"
    and inj: "inj_on coord_sum (set pts)" "inj_on coord_diff (set pts)"
    and ax: "real_of_int w \<le> 0.8 * real_of_int h \<or> real_of_int w \<ge> 1.2 * real_of_int h"
  shows "temp_rect (turn90 c pts) w h = temp_rect (map (rot90 c) pts) w h"
    "temp_rect (turn180 c pts) w h = temp_rect (map (rot180 c) pts) w h"
    "temp_rect (turn270 c pts) w h = temp_rect (map (rot270 c) pts) w h"
proof -
  have ne': "map (rot90 c) pts \<noteq> []" "map (rot180 c) pts \<noteq> []" "map (rot270 c) pts \<noteq> []"
    using ne by simp_all
  note t = inj_on_turned[OF inj, of c]
  show "temp_rect (turn90 c pts) w h = temp_rect (map (rot90 c) pts) w h"
    "temp_rect (turn180 c pts) w h = temp_rect (map (rot180 c) pts) w h"
    "temp_rect (turn270 c pts) w h = temp_rect (map (rot270 c) pts) w h"
    unfolding turn90_def turn180_def turn270_def
    by (intro temp_rect_restart ne' t ax)+
qed





section \<open>The cutoff of preprocess_image\<close>

text \<open>
  Claim C7, as amended. Whenever \<^verbatim>\<open>preprocess_image\<close> returns, it has sampled one
  pixel of the grayscale frame, before the smoothing, and the mask is the smoothed
  frame binarized at that pixel's intensity plus 60, an integer between 60 and 315
  that does not wrap around: a mask pixel is 255 where the smoothed pixel is above
  the cutoff and 0 elsewhere. Where the sampled pixel lies is left open here.
\<close>

theorem preprocess_image_cutoff:
  assumes "preprocess_image cv fr = Inr thresh"
  shows "\<exists>r c bkg_level.
           getpix (cvtColor cv fr) r c = Inr bkg_level \<and>
           60 \<le> uint bkg_level + 60 \<and> uint bkg_level + 60 \<le> 315 \<and>
           thresh = map (map (\<lambda>p. if uint bkg_level + 60 < uint p then 255 else 0))
                      (GaussianBlur cv (cvtColor cv fr))"
proof -
  let ?r = "snd (shape2 fr) div 100" and ?c = "fst (shape2 fr) div 2"
  from assms obtain b where b: "getpix (cvtColor cv fr) ?r ?c = Inr b"
    by (auto simp: preprocess_image_def Let_def split_def split: sum.splits)
  with assms have "thresh = threshold (GaussianBlur cv (cvtColor cv fr)) (uint b + 60) 255 THRESH_BINARY"
    by (simp add: preprocess_image_def Let_def split_def BKG_THRESH_def)
  then have t: "thresh = map (map (\<lambda>p. if uint b + 60 < uint p then 255 else 0))
                      (GaussianBlur cv (cvtColor cv fr))"
    by (simp add: threshold_def)
  have "0 \<le> uint b" "uint b < 256" using uint_bounded[of b] by simp_all
  then have "60 \<le> uint b + 60" "uint b + 60 \<le> 315" by simp_all
  with b t show ?thesis by blast
qed

text \<open>
  The theorem at a 2x2 frame: the sampled gray level is 10, the cutoff 70, and the
  smoothed frame, 105 everywhere, turns white.
\<close>

theorem preprocess_image_cutoff_witness:
  "preprocess_image cv_stub (gray_frame small_gray) = Inr (replicate 2 (replicate 2 255)) \<and>
   (\<exists>r c bkg_level.
      getpix (cvtColor cv_stub (gray_frame small_gray)) r c = Inr bkg_level \<and>
      replicate 2 (replicate 2 (255 :: pixel)) =
        map (map (\<lambda>p. if uint bkg_level + 60 < uint p then 255 else 0))
          (GaussianBlur cv_stub (cvtColor cv_stub (gray_frame small_gray))))"
proof -
  have run: "preprocess_image cv_stub (gray_frame small_gray) = Inr (replicate 2 (replicate 2 255))"
    by code_simp
  from preprocess_image_cutoff[OF run] have "\<exists>r c bkg_level.
      getpix (cvtColor cv_stub (gray_frame small_gray)) r c = Inr bkg_level \<and>
      replicate 2 (replicate 2 (255 :: pixel)) =
        map (map (\<lambda>p. if uint bkg_level + 60 < uint p then 255 else 0))
          (GaussianBlur cv_stub (cvtColor cv_stub (gray_frame small_gray)))"
    by blast
  with run show ?thesis by (intro conjI)
qed

text \<open>
  The claim as stated fails twice. On a square 3x3 frame with columns 200, 20, 200,
  whose 5x5 Gaussian smoothing is 110 everywhere, the sampled pixel is row 0, column 1
  in either reading: the code takes the cutoff 20 + 60 from the grayscale pixel, not
  110 + 60 from the smoothed one, and the two masks differ. On a frame 1 pixel wide
  and 4 pixels high the code reads column 2, half the height, where the claim has
  column 0, half the width: the call raises IndexError.
\<close>

theorem preprocess_image_counterexample:
  "cvtColor cv_stub (gray_frame striped_gray) = striped_gray \<and>
   GaussianBlur cv_stub striped_gray = replicate 3 (replicate 3 110) \<and>
   preprocess_image cv_stub (gray_frame striped_gray) =
     Inr (threshold (replicate 3 (replicate 3 110)) (20 + 60) 255 THRESH_BINARY) \<and>
   preprocess_image cv_stub (gray_frame striped_gray) \<noteq>
     Inr (threshold (replicate 3 (replicate 3 110)) (110 + 60) 255 THRESH_BINARY) \<and>
   shape2 (gray_frame tall_gray) = (4, 1) \<and>
   preprocess_image cv_stub (gray_frame tall_gray) = Inl IndexError"
proof -
  have a: "cvtColor cv_stub (gray_frame striped_gray) = striped_gray" by code_simp
  have b: "GaussianBlur cv_stub striped_gray = replicate 3 (replicate 3 110)" by code_simp
  have c: "preprocess_image cv_stub (gray_frame striped_gray) =
     Inr (threshold (replicate 3 (replicate 3 110)) (20 + 60) 255 THRESH_BINARY)" by code_simp
  have d: "preprocess_image cv_stub (gray_frame striped_gray) \<noteq>
     Inr (threshold (replicate 3 (replicate 3 110)) (110 + 60) 255 THRESH_BINARY)" by code_simp
  have e: "shape2 (gray_frame tall_gray) = (4, 1)" by code_simp
  have f: "preprocess_image cv_stub (gray_frame tall_gray) = Inl IndexError" by code_simp
  from a b c d e f show ?thesis by (intro conjI)
qed

section \<open>The invariants of a card record\<close>

lemma py_slice_length:
  "length (py_slice lo hi xs) = slice_bound (length xs) hi - slice_bound (length xs) lo"
proof -
  have "slice_bound (length xs) hi - slice_bound (length xs) lo
          \<le> length xs - slice_bound (length xs) lo"
    using slice_bound_le[of "length xs" hi] by simp
  then show ?thesis by (simp add: py_slice_def Let_def min_def)
qed

lemma py_slice_subset: "set (py_slice lo hi xs) \<subseteq> set xs"
  unfolding py_slice_def Let_def
  by (meson set_take_subset set_drop_subset subset_trans)

lemma has_shape_slice2:
  assumes "has_shape a m n"
  shows "has_shape (slice2 a r0 r1 c0 c1) (slice_bound m r1 - slice_bound m r0)
           (slice_bound n c1 - slice_bound n c0)"
proof -
  from assms have len: "length a = m" and rows: "\<And>r. r \<in> set a \<Longrightarrow> length r = n"
    by (auto simp: has_shape_def list_all_iff)
  have "length (slice2 a r0 r1 c0 c1) = slice_bound m r1 - slice_bound m r0"
    by (simp add: slice2_def py_slice_length len)
  moreover have "\<And>r. r \<in> set (slice2 a r0 r1 c0 c1) \<Longrightarrow>
       length r = slice_bound n c1 - slice_bound n c0"
    using py_slice_subset[of r0 r1 a] rows by (auto simp: slice2_def py_slice_length)
  ultimately show ?thesis by (simp add: has_shape_def list_all_iff)
qed

lemma has_shape_nonempty:
  "has_shape a m n \<Longrightarrow> 0 < m \<Longrightarrow> 0 < n \<Longrightarrow> a \<noteq> [] \<and> hd a \<noteq> []"
  by (cases a) (auto simp: has_shape_def)

lemma has_shape_threshold: "has_shape a m n \<Longrightarrow> has_shape (threshold a t v ty) m n"
  by (auto simp: has_shape_def threshold_def list_all_iff)

lemma has_shape_map_length:
  "has_shape a m n \<Longrightarrow> map length b = map length a \<Longrightarrow> has_shape b m n"
proof -
  assume a: "has_shape a m n" and e: "map length b = map length a"
  from e have "length b = length a" by (rule map_eq_imp_length_eq)
  moreover have "set (map length b) = set (map length a)" using e by simp
  ultimately show ?thesis using a
    by (auto simp: has_shape_def list_all_iff) 
qed

lemma has_shape_same_lengths:
  "has_shape a m n \<Longrightarrow> has_shape b m n \<Longrightarrow> map length a = map length b"
  by (auto simp: has_shape_def list_all_iff intro!: nth_equalityI)

lemma getpix_inside:
  "has_shape a m n \<Longrightarrow> r < m \<Longrightarrow> c < n \<Longrightarrow> \<exists>p. getpix a r c = Inr p"
  by (auto simp: has_shape_def getpix_def list_all_iff)

lemma temp_rect_total:
  assumes "length pts = 4"
  shows "\<exists>rect. temp_rect pts w h = Inr rect"
proof -
  from assms have ne: "pts \<noteq> []" by auto
  have s: "(\<lambda>(x, y). x + y) = coord_sum" "(\<lambda>(x, y). y - x) = coord_diff"
    by (auto simp: coord_sum_def coord_diff_def fun_eq_iff)
  show ?thesis
    unfolding temp_rect_def s using ne assms
    by (simp add: np_argmin_first np_argmax_first Let_def)
qed

lemma flattener_shape:
  assumes c: "cv2_contract cv" and len: "length pts = 4"
  shows "\<exists>warped. flattener cv fr pts w h = Inr warped \<and> has_shape warped 300 200"
proof -
  from temp_rect_total[OF len, of w h] obtain rect where r: "temp_rect pts w h = Inr rect" ..
  let ?M = "getPerspectiveTransform cv rect [(0, 0), (int 200 - 1, 0), (int 200 - 1, int 300 - 1),
                      (0, int 300 - 1)]"
  let ?w = "warpPerspective cv fr ?M (200, 300)"
  from c have "has_shape ?w 300 200" by (simp add: cv2_contract_def)
  moreover from c have "map length (cvtColor cv ?w) = map length ?w"
    by (simp add: cv2_contract_def)
  ultimately have "has_shape (cvtColor cv ?w) 300 200"
    by (rule has_shape_map_length)
  with r show ?thesis by (simp add: flattener_def Let_def)
qed

lemma query_thresh_shape:
  assumes c: "cv2_contract cv" and w: "has_shape warped 300 200"
  shows "\<exists>qt. query_thresh cv warped = Inr qt \<and> has_shape qt 336 128"
proof -
  let ?corner = "slice2 warped 0 84 0 32"
  have "has_shape ?corner (slice_bound 300 84 - slice_bound 300 0)
          (slice_bound 200 32 - slice_bound 200 0)"
    using w by (rule has_shape_slice2)
  then have cs: "has_shape ?corner 84 32" by (simp add: slice_bound_def)
  then have ne: "?corner \<noteq> [] \<and> hd ?corner \<noteq> []" by (rule has_shape_nonempty) simp_all
  have hdl: "length (hd ?corner) = 32" "length ?corner = 84"
    using cs ne by (cases ?corner; auto simp: has_shape_def)+
  let ?zoom = "resize cv ?corner (0, 0) 4 4"
  from c ne have "has_shape ?zoom (4 * length ?corner) (4 * length (hd ?corner))"
    unfolding cv2_contract_def by (metis (no_types, lifting))
  then have zs: "has_shape ?zoom 336 128" by (simp add: hdl)
  from getpix_inside[OF zs, of 15 64] obtain white where wl: "getpix ?zoom 15 64 = Inr white"
    by auto
  have "query_thresh cv warped =
      Inr (threshold ?zoom (card_thresh_level white) 255 THRESH_BINARY_INV)"
    using ne wl by (simp add: query_thresh_def CORNER_HEIGHT_def CORNER_WIDTH_def cv2_resize_def)
  with has_shape_threshold[OF zs] show ?thesis by simp
qed

lemma has_shape_shape2: "has_shape a m n \<Longrightarrow> 0 < m \<Longrightarrow> shape2 a = (m, n)"
  by (cases a) (auto simp: has_shape_def shape2_def)

lemma slice_bound_inside: "0 \<le> i \<Longrightarrow> i \<le> int n \<Longrightarrow> slice_bound n i = nat i"
  by (auto simp: slice_bound_def)

lemma suit_roi_resize:
  assumes c: "cv2_contract cv" and qs: "has_shape Qsuit 150 128"
    and ri: "rect_inside (x2, y2, w2, h2) Qsuit"
  shows "\<exists>sized. cv2_resize cv (slice2 Qsuit y2 (y2 + h2) x2 (x2 + w2)) (SUIT_WIDTH, SUIT_HEIGHT) 0 0
            = Inr sized \<and> has_shape sized 100 70"
proof -
  let ?roi = "slice2 Qsuit y2 (y2 + h2) x2 (x2 + w2)"
  have sh: "shape2 Qsuit = (150, 128)" using qs by (rule has_shape_shape2) simp
  from ri sh have b: "0 \<le> x2" "0 \<le> y2" "1 \<le> w2" "1 \<le> h2" "x2 + w2 \<le> 128" "y2 + h2 \<le> 150"
    by (simp_all add: rect_inside_def)
  have "has_shape ?roi (slice_bound 150 (y2 + h2) - slice_bound 150 y2)
          (slice_bound 128 (x2 + w2) - slice_bound 128 x2)"
    using qs by (rule has_shape_slice2)
  moreover have "slice_bound 150 (y2 + h2) = nat (y2 + h2)" "slice_bound 150 y2 = nat y2"
    "slice_bound 128 (x2 + w2) = nat (x2 + w2)" "slice_bound 128 x2 = nat x2"
    using b by (simp_all add: slice_bound_inside)
  ultimately have rs: "has_shape ?roi (nat (y2 + h2) - nat y2) (nat (x2 + w2) - nat x2)"
    by simp
  have pos: "0 < nat (y2 + h2) - nat y2" "0 < nat (x2 + w2) - nat x2" using b by simp_all
  from has_shape_nonempty[OF rs pos] have ne: "?roi \<noteq> [] \<and> hd ?roi \<noteq> []" .
  from c ne have "has_shape (resize cv ?roi (70, 100) 0 0) 100 70"
    unfolding cv2_contract_def
    by (metis (no_types, lifting) prod.inject zero_neq_numeral)
  with ne show ?thesis by (simp add: cv2_resize_def SUIT_WIDTH_def SUIT_HEIGHT_def)
qed

lemma preprocess_card_total:
  assumes c: "cv2_contract cv"
    and four: "length (approxPolyDP cv cnt (0.01 * arcLength cv cnt)) = 4"
  shows "\<exists>q. preprocess_card cv cnt fr = Inr q \<and>
           corner_pts q = approxPolyDP cv cnt (0.01 * arcLength cv cnt) \<and>
           has_shape (warp q) 300 200 \<and>
           (suit_img q = [] \<or> has_shape (suit_img q) 100 70)"
proof -
  let ?pts = "approxPolyDP cv cnt (0.01 * arcLength cv cnt)"
  obtain x y w h where br: "boundingRect cv cnt = (x, y, w, h)"
    by (cases "boundingRect cv cnt") auto
  from four have ne: "?pts \<noteq> []" by auto
  from flattener_shape[OF c four, of fr w h] obtain warped where
    fl: "flattener cv fr ?pts w h = Inr warped" and ws: "has_shape warped 300 200" by blast
  from query_thresh_shape[OF c ws] obtain qt where
    qt: "query_thresh cv warped = Inr qt" and qts: "has_shape qt 336 128" by blast
  let ?Qsuit = "slice2 qt 186 336 0 128"
  have "has_shape ?Qsuit (slice_bound 336 336 - slice_bound 336 186)
          (slice_bound 128 128 - slice_bound 128 0)"
    using qts by (rule has_shape_slice2)
  then have qs: "has_shape ?Qsuit 150 128" by (simp add: slice_bound_def)
  obtain found hier where fc: "findContours cv ?Qsuit = (found, hier)"
    by (cases "findContours cv ?Qsuit") auto
  let ?sorted = "sort_key (\<lambda>c. - contourArea cv c) found"
  let ?q0 = "Query_card_init\<lparr>contour := cnt, corner_pts := ?pts, width := w, height := h,
      center := [trunc_mean (map fst ?pts), trunc_mean (map snd ?pts)], warp := warped\<rparr>"
  show ?thesis
  proof (cases "found = []")
    case True
    then have "preprocess_card cv cnt fr = Inr ?q0"
      using br ne fl qt fc by (simp add: preprocess_card_def Let_def)
    moreover have "suit_img ?q0 = []" by (simp add: Query_card_init_def)
    ultimately show ?thesis using ws by simp
  next
    case False
    have "length ?sorted = length found" by simp
    with False have sne: "?sorted \<noteq> []" by (metis length_0_conv)
    have "?sorted ! 0 \<in> set ?sorted" using False by (intro nth_mem) simp
    then have "?sorted ! 0 \<in> set found" by (simp only: set_sort)
    then have mem: "?sorted ! 0 \<in> set (fst (findContours cv ?Qsuit))" using fc by simp
    obtain x2 y2 w2 h2 where br2: "boundingRect cv (?sorted ! 0) = (x2, y2, w2, h2)"
      by (cases "boundingRect cv (?sorted ! 0)") auto
    from c have "list_all (\<lambda>c. rect_inside (boundingRect cv c) ?Qsuit) (fst (findContours cv ?Qsuit))"
      by (simp add: cv2_contract_def)
    with mem br2 have ri: "rect_inside (x2, y2, w2, h2) ?Qsuit"
      by (auto simp: list_all_iff)
    from suit_roi_resize[OF c qs ri] obtain sized where
      rz: "cv2_resize cv (slice2 ?Qsuit y2 (y2 + h2) x2 (x2 + w2)) (SUIT_WIDTH, SUIT_HEIGHT) 0 0
            = Inr sized" and ss: "has_shape sized 100 70" by blast
    have "preprocess_card cv cnt fr = Inr (?q0\<lparr>suit_img := sized\<rparr>)"
      using br ne fl qt fc sne br2 rz by (simp add: preprocess_card_def Let_def)
    then show ?thesis using ws ss by simp
  qed
qed

lemma canonical_glyph_shape: "canonical_glyph g \<longleftrightarrow> has_shape g 100 70"
  by (simp add: canonical_glyph_def has_shape_def SUIT_HEIGHT_def SUIT_WIDTH_def)

lemma np_sum_nonneg: "0 \<le> np_sum a"
  unfolding np_sum_def by (auto intro!: sum_list_nonneg)

lemma match_loop_inv:
  "snd (match_loop q ts v) = Inr v' \<Longrightarrow>
     (0 \<le> best_suit_match_diff v \<longrightarrow> 0 \<le> best_suit_match_diff v') \<and>
     (best_suit_name v' = best_suit_name v \<or> (\<exists>t\<in>set ts. best_suit_name v' = Some (name t)))"
proof (induction ts arbitrary: v)
  case Nil
  then show ?case by simp
next
  case (Cons t ts)
  from Cons.prems obtain d where d: "absdiff (suit_img q) (img t) = Inr d"
    by (cases "absdiff (suit_img q) (img t)") auto
  let ?sd = "np_sum d div 255"
  have sd: "0 \<le> ?sd" using np_sum_nonneg[of d] by (simp add: pos_imp_zdiv_nonneg_iff)
  show ?case
  proof (cases "?sd < best_suit_match_diff v")
    case True
    let ?v1 = "v\<lparr>best_suit_diff_img := Some d, best_suit_match_diff := ?sd,
                 best_suit_name := Some (name t)\<rparr>"
    from Cons.prems d True have "snd (match_loop q ts ?v1) = Inr v'" by (simp add: Let_def)
    from Cons.IH[OF this] sd show ?thesis by auto
  next
    case False
    with Cons.prems d have "snd (match_loop q ts v) = Inr v'" by (simp add: Let_def)
    from Cons.IH[OF this] show ?thesis by auto
  qed
qed

lemma match_card_label:
  assumes "snd (match_card q ts) = Inr (label, score)"
  shows "0 \<le> score \<and> (label = ''Unknown'' \<or> label \<in> name ` set ts)"
proof -
  let ?v0 = "\<lparr>best_suit_match_diff = 10000, best_suit_name = None, best_suit_diff_img = None\<rparr>"
  show ?thesis
  proof (cases "suit_img q = []")
    case True
    with assms show ?thesis by (simp add: match_card_empty)
  next
    case False
    obtain q' r where run: "match_loop q ts ?v0 = (q', r)" by (cases "match_loop q ts ?v0")
    with assms False obtain v' where v': "r = Inr v'"
      by (cases r) (auto simp: match_card_def)
    from run v' have "snd (match_loop q ts ?v0) = Inr v'" by simp
    from match_loop_inv[OF this]
    have inv: "0 \<le> best_suit_match_diff v'"
      "best_suit_name v' = None \<or> (\<exists>t\<in>set ts. best_suit_name v' = Some (name t))"
      by simp_all
    from assms False run v' inv show ?thesis
      by (auto simp: match_card_def split: if_splits option.splits)
  qed
qed

lemma match_card_returns:
  assumes "suit_img q = [] \<or> (\<forall>t\<in>set ts. same_shape (suit_img q) t)"
  shows "\<exists>label score. snd (match_card q ts) = Inr (label, score)"
proof (cases "suit_img q = []")
  case True
  then show ?thesis by (simp add: match_card_empty)
next
  case False
  let ?v0 = "\<lparr>best_suit_match_diff = 10000, best_suit_name = None, best_suit_diff_img = None\<rparr>"
  from False assms have sh: "\<forall>t\<in>set ts. same_shape (suit_img q) t" by simp
  from match_loop_char[OF sh, of ?v0] have "\<exists>v'. match_loop q ts ?v0 = (q, Inr v') \<and>
      (best_suit_match_diff v' = 10000 \<longrightarrow> v' = ?v0) \<and>
      (best_suit_match_diff v' < 10000 \<longrightarrow> (\<exists>n. best_suit_name v' = Some n))"
    by auto
  then obtain v' where v': "match_loop q ts ?v0 = (q, Inr v')"
    "best_suit_match_diff v' < 10000 \<longrightarrow> (\<exists>n. best_suit_name v' = Some n)" by blast
  show ?thesis
  proof (cases "best_suit_match_diff v' < 700")
    case True
    with v'(2) obtain n where "best_suit_name v' = Some n" by auto
    with True v'(1) False show ?thesis by (simp add: match_card_def SUIT_DIFF_MAX_def)
  next
    case False
    with v'(1) \<open>suit_img q \<noteq> []\<close> show ?thesis by (simp add: match_card_def SUIT_DIFF_MAX_def)
  qed
qed

text \<open>
  Claim C8. Let the OpenCV functions keep what the library guarantees (\<open>cv2_contract\<close>).
  For every contour that \<^verbatim>\<open>find_cards\<close> flags and every frame, \<^verbatim>\<open>preprocess_card\<close>
  returns a card with exactly 4 corner points, a rectified image of 300 rows by 200
  columns and a suit glyph that is empty or has 100 rows by 70 columns. Whenever
  \<^verbatim>\<open>match_card\<close> returns for this card and the templates of \<^verbatim>\<open>load_suits\<close>, the
  score is at least 0 and the label is Spades, Diamonds, Clubs, Hearts or Unknown;
  and it does return when every template file holds a 70x100 image.
\<close>

theorem card_record_invariants:
  assumes "cv2_contract cv"
    and "find_cards cv thresh_image = Inr (cs, fs)"
    and "k < length cs" and "fs ! k = 1"
  shows "\<exists>q. preprocess_card cv (cs ! k) fr = Inr q \<and>
           length (corner_pts q) = 4 \<and>
           has_shape (warp q) 300 200 \<and>
           (suit_img q = [] \<or> has_shape (suit_img q) 100 70) \<and>
           (\<forall>label score.
              snd (match_card q (load_suits cv path)) = Inr (label, score) \<longrightarrow>
              0 \<le> score \<and>
              label \<in> {''Spades'', ''Diamonds'', ''Clubs'', ''Hearts'', ''Unknown''}) \<and>
           (list_all canonical_template (load_suits cv path) \<longrightarrow>
              (\<exists>label score. snd (match_card q (load_suits cv path)) = Inr (label, score)))"
proof -
  obtain cnts hier where fc: "findContours cv thresh_image = (cnts, hier)"
    by (cases "findContours cv thresh_image") auto
  from assms(1) have "length (snd (findContours cv thresh_image)) =
      length (fst (findContours cv thresh_image))" by (simp add: cv2_contract_def)
  with fc have len: "length cnts \<le> length hier" by simp
  let ?idx = "sort_key (\<lambda>i. - contourArea cv (cnts ! i)) [0..<length cnts]"
  from find_cards_char[OF fc len] assms(2)
  have cs: "cs = map (nth cnts) ?idx"
    and fs: "fs = map (\<lambda>i. card_flag cv (cnts ! i) (hier ! i)) ?idx" by simp_all
  from assms(3) cs have k: "k < length ?idx" by simp
  with assms(4) fs cs have "card_flag cv (cs ! k) (hier ! (?idx ! k)) = 1" by simp
  then have four: "length (approxPolyDP cv (cs ! k) (0.01 * arcLength cv (cs ! k))) = 4"
    by (simp add: card_flag_def split: if_splits)
  from preprocess_card_total[OF assms(1) four, of fr] obtain q where
    q: "preprocess_card cv (cs ! k) fr = Inr q"
      "corner_pts q = approxPolyDP cv (cs ! k) (0.01 * arcLength cv (cs ! k))"
      "has_shape (warp q) 300 200"
      "suit_img q = [] \<or> has_shape (suit_img q) 100 70" by blast
  let ?ts = "load_suits cv path"
  have names: "name ` set ?ts = {''Spades'', ''Diamonds'', ''Clubs'', ''Hearts''}"
    by (simp add: load_suits_eq)
  have lab: "\<forall>label score. snd (match_card q ?ts) = Inr (label, score) \<longrightarrow>
              0 \<le> score \<and> label \<in> {''Spades'', ''Diamonds'', ''Clubs'', ''Hearts'', ''Unknown''}"
  proof (intro allI impI)
    fix label score assume "snd (match_card q ?ts) = Inr (label, score)"
    from match_card_label[OF this] names
    show "0 \<le> score \<and> label \<in> {''Spades'', ''Diamonds'', ''Clubs'', ''Hearts'', ''Unknown''}"
      by auto
  qed
  have tot: "list_all canonical_template ?ts \<longrightarrow>
              (\<exists>label score. snd (match_card q ?ts) = Inr (label, score))"
  proof
    assume ct: "list_all canonical_template ?ts"
    have "suit_img q = [] \<or> (\<forall>t\<in>set ?ts. same_shape (suit_img q) t)"
    proof (cases "suit_img q = []")
      case True then show ?thesis by simp
    next
      case False
      with q(4) have gs: "has_shape (suit_img q) 100 70" by simp
      have "\<forall>t\<in>set ?ts. same_shape (suit_img q) t"
      proof
        fix t assume "t \<in> set ?ts"
        with ct have "canonical_template t" by (simp add: list_all_iff)
        then obtain b where b: "img t = Some b" "has_shape b 100 70"
          by (auto simp: canonical_template_def canonical_glyph_shape split: option.splits)
        from has_shape_same_lengths[OF gs b(2)] b(1) show "same_shape (suit_img q) t"
          by (simp add: same_shape_def)
      qed
      then show ?thesis by simp
    qed
    then show "\<exists>label score. snd (match_card q ?ts) = Inr (label, score)"
      by (rule match_card_returns)
  qed
  from q four lab tot show ?thesis by auto
qed

lemma has_shape_replicate: "has_shape (replicate m (replicate n x)) m n"
  by (simp add: has_shape_def list_all_iff)

lemma cv_stub_contract: "cv2_contract cv_stub"
  unfolding cv2_contract_def
proof (intro conjI allI impI)
  fix a
  show "length (snd (findContours cv_stub a)) = length (fst (findContours cv_stub a))"
    by (simp add: cv_stub_def stub_findContours_def Let_def)
  show "list_all (\<lambda>c. rect_inside (boundingRect cv_stub c) a) (fst (findContours cv_stub a))"
    by (auto simp: cv_stub_def stub_findContours_def Let_def list_all_iff)
next
  fix fr M w h
  show "has_shape (warpPerspective cv_stub fr M (w, h)) h w"
    by (simp add: cv_stub_def stub_warpPerspective_def has_shape_replicate)
next
  fix fr
  show "map length (cvtColor cv_stub fr) = map length fr"
    by (simp add: cv_stub_def stub_cvtColor_def)
next
  fix src :: image and w h fx fy
  show "if (w, h) = (0, 0)
        then has_shape (resize cv_stub src (w, h) fx fy) (fy * length src) (fx * length (hd src))
        else has_shape (resize cv_stub src (w, h) fx fy) h w"
    by (simp add: cv_stub_def stub_resize_def has_shape_replicate)
qed

lemma stub_templates: "list_all canonical_template (load_suits cv_stub path)"
  by (simp add: load_suits_eq canonical_template_def cv_stub_def stub_imread_def
        canonical_glyph_def glyph_with_def SUIT_HEIGHT_def SUIT_WIDTH_def list_all_iff)

text \<open>
  The theorem at the stand-in library, the 1280x720 mask and the flagged card-sized
  rectangle: the contract holds, the rectangle is flagged, and the card is built and
  scored.
\<close>

theorem card_record_invariants_witness:
  "cv2_contract cv_stub \<and>
   find_cards cv_stub frame_mask =
     Inr (map (nth (map fst stub_contours)) [2, 0, 1, 3], [0, 1, 0, 0]) \<and>
   (\<exists>q. preprocess_card cv_stub (map (nth (map fst stub_contours)) [2, 0, 1, 3] ! 1)
           (gray_frame frame_mask) = Inr q \<and>
        length (corner_pts q) = 4 \<and>
        has_shape (warp q) 300 200 \<and>
        (suit_img q = [] \<or> has_shape (suit_img q) 100 70) \<and>
        (\<exists>label score.
           snd (match_card q (load_suits cv_stub ''Card_Imgs/'')) = Inr (label, score) \<and>
           0 \<le> score \<and>
           label \<in> {''Spades'', ''Diamonds'', ''Clubs'', ''Hearts'', ''Unknown''}))"
proof -
  let ?cs = "map (nth (map fst stub_contours)) [2, 0, 1, 3]"
  let ?fs = "[0, 1, 0, 0] :: int list"
  let ?ts = "load_suits cv_stub ''Card_Imgs/''"
  let ?L = "{''Spades'', ''Diamonds'', ''Clubs'', ''Hearts'', ''Unknown''}"
  have run: "find_cards cv_stub frame_mask = Inr (?cs, ?fs)" by (rule find_cards_stub_mask)
  have k: "1 < length ?cs" by simp
  have f: "?fs ! 1 = 1" by simp
  from card_record_invariants[OF cv_stub_contract run k f, of "gray_frame frame_mask" "''Card_Imgs/''"]
  obtain q where q: "preprocess_card cv_stub (?cs ! 1) (gray_frame frame_mask) = Inr q \<and>
    length (corner_pts q) = 4 \<and> has_shape (warp q) 300 200 \<and>
    (suit_img q = [] \<or> has_shape (suit_img q) 100 70) \<and>
    (\<forall>label score. snd (match_card q ?ts) = Inr (label, score) \<longrightarrow>
        0 \<le> score \<and> label \<in> ?L) \<and>
    (list_all canonical_template ?ts \<longrightarrow>
        (\<exists>label score. snd (match_card q ?ts) = Inr (label, score)))" ..
  note q1 = q[THEN conjunct1] and q2 = q[THEN conjunct2, THEN conjunct1]
    and q3 = q[THEN conjunct2, THEN conjunct2, THEN conjunct1]
    and q4 = q[THEN conjunct2, THEN conjunct2, THEN conjunct2, THEN conjunct1]
    and q5 = q[THEN conjunct2, THEN conjunct2, THEN conjunct2, THEN conjunct2, THEN conjunct1]
    and q6 = q[THEN conjunct2, THEN conjunct2, THEN conjunct2, THEN conjunct2, THEN conjunct2]
  from q6[rule_format, OF stub_templates] obtain label score where
    r: "snd (match_card q ?ts) = Inr (label, score)" by (elim exE)
  note l = q5[rule_format, OF r]
  have "snd (match_card q ?ts) = Inr (label, score) \<and> 0 \<le> score \<and> label \<in> ?L"
    using r l by (intro conjI) (rule r, rule l[THEN conjunct1], rule l[THEN conjunct2])
  then have e: "\<exists>label score.
           snd (match_card q ?ts) = Inr (label, score) \<and> 0 \<le> score \<and> label \<in> ?L"
    by (intro exI)
  have "preprocess_card cv_stub (?cs ! 1) (gray_frame frame_mask) = Inr q \<and>
        length (corner_pts q) = 4 \<and> has_shape (warp q) 300 200 \<and>
        (suit_img q = [] \<or> has_shape (suit_img q) 100 70) \<and>
        (\<exists>label score.
           snd (match_card q ?ts) = Inr (label, score) \<and> 0 \<le> score \<and> label \<in> ?L)"
    by (intro conjI) (rule q1, rule q2, rule q3, rule q4, rule e)
  then have ex: "\<exists>q. preprocess_card cv_stub (?cs ! 1) (gray_frame frame_mask) = Inr q \<and>
        length (corner_pts q) = 4 \<and> has_shape (warp q) 300 200 \<and>
        (suit_img q = [] \<or> has_shape (suit_img q) 100 70) \<and>
        (\<exists>label score.
           snd (match_card q ?ts) = Inr (label, score) \<and> 0 \<le> score \<and> label \<in> ?L)"
    by (intro exI)
  show ?thesis
    by (intro conjI) (rule cv_stub_contract, rule run, rule ex)
qed

end
